theory Spec2Isabelle
  imports Main "HOL-Library.Sublist"
begin

section \<open>Settings and engine construction (src/src/pipelineMachine.ts, runPipeline)\<close>

text \<open>
  The fields of \<open>AppSettings\<close> that the control flow of the controller reads. The remaining
  fields (width, height, bitrate, presets, overlay image, ...) are only spliced into the
  GStreamer pipeline text and decide nothing here. An optional string is \<open>string option\<close>;
  JavaScript's \<open>!s\<close> is true for \<open>undefined\<close> and for the empty string.
\<close>

record AppSettings =
  outUri :: "string option"
  inPipeline :: "string option"
  outPipeline :: "string option"
  encoder :: string
  delaySeconds :: int
  restartSeconds :: int

definition truthy :: "string option \<Rightarrow> bool" where
  "truthy s = (case s of None \<Rightarrow> False | Some t \<Rightarrow> t \<noteq> [])"

datatype construct_error =
    Missing_outUri
  | Unexpected_output_stream_protocol string
  | Unexpected_encoder string

text \<open>
  The synchronous part of the \<open>runPipeline\<close> callback up to \<open>new Pipeline(...)\<close>: the three
  \<open>throw new Error\<close> statements, in the order of the source. \<open>Inr ()\<close> means the callback
  goes on to build and play the pipeline.
\<close>

definition check_encoder :: "AppSettings \<Rightarrow> construct_error + unit" where
  "check_encoder s =
     (if encoder s = ''none'' then Inr ()
      else if encoder s = ''x264'' then Inr ()
      else if encoder s = ''nvenc'' then Inr ()
      else Inl (Unexpected_encoder (encoder s)))"

definition runPipeline :: "AppSettings \<Rightarrow> construct_error + unit" where
  "runPipeline s =
     (if truthy (outPipeline s) then check_encoder s
      else (case outUri s of
              None \<Rightarrow> Inl Missing_outUri
            | Some u \<Rightarrow>
                if u = [] then Inl Missing_outUri
                else if prefix ''rtmp://'' u then check_encoder s
                else if prefix ''srt://'' u then check_encoder s
                else Inl (Unexpected_output_stream_protocol u)))"

section \<open>The state machine (src/src/pipelineMachine.ts, pipelineMachine)\<close>

text \<open>
  The configuration given to \<open>setup(...).createMachine\<close> is run by the xstate library
  (version 5, src/package.json). The definitions of this section are that configuration read
  under the library's algorithm: an event selects, in each region, the transition of the
  innermost active state that handles it; a transition exits the active states below its
  domain, runs its actions and enters its targets; \<open>raise\<close> puts an event on the internal
  queue of the running macrostep; eventless (\<open>always\<close>) transitions are selected anew after
  every microstep that handled an event, whether or not the event enabled a transition; an
  \<open>after\<close> entry is a delayed event scheduled on entry and cancelled on exit; the error of
  an invoked actor that no transition handles stops the machine actor with status \<open>error\<close>.
\<close>

subsection \<open>State value, events, actions\<close>

text \<open>
  The machine is parallel with the regions \<open>censorship\<close> and \<open>stream\<close>. A state value names
  the active leaf of each region.
\<close>

datatype censored_state = Active | Deactivating
datatype censorship_state = Normal | Censored censored_state
datatype running_state = Waiting | Started
datatype stream_state = Stopped | Restarting | Running running_state | Error

text \<open>
  The events of the machine's \<open>types.events\<close>, the two delayed events that the \<open>after\<close>
  blocks stand for, and the error event that an invoked actor reports to its parent.
\<close>

datatype event =
    START | STOP | CENSOR | UNCENSOR | NORMAL
  | PIPELINE_ENDED | PIPELINE_STARTED
  | AFTER_STREAM_DELAY | AFTER_RESTART_DELAY
  | ERROR_ACTOR

datatype PipelineControlEvent = RENDER_NORMAL | RENDER_CENSORED

datatype delay_name = STREAM_DELAY | RESTART_DELAY

text \<open>
  What a step asks of the actor system: a command for the invoked engine actor, starting or
  stopping such an actor (actors are numbered in the order they are created), and
  scheduling or cancelling a delayed event.
\<close>

datatype effect =
    SendTo nat PipelineControlEvent
  | SpawnChild nat
  | StopChild nat
  | Schedule delay_name int
  | Cancel delay_name

datatype actor_status = Status_active | Status_error

text \<open>
  The snapshot of the machine actor (\<open>status\<close>, state value, \<open>context\<close>, the child invoked
  under the id \<open>pipelineActor\<close>) together with what the actor system keeps for it: the
  identity \<open>ident\<close> of the current snapshot object (a fresh number for every object the
  library allocates, so that JavaScript's \<open>===\<close> on snapshots is equality of \<open>ident\<close>),
  the pending delayed events with the time at which they are due, and the counters that
  number snapshot objects and actors.
\<close>

record machine =
  ident :: nat
  status :: actor_status
  censorship :: censorship_state
  stream :: stream_state
  startTime :: "int option"
  settings :: AppSettings
  pipelineActor :: "nat option"
  stream_delay_timer :: "int option"
  restart_delay_timer :: "int option"
  next_ident :: nat
  next_actor :: nat

text \<open>The interpreter's working state inside one macrostep.\<close>

record interp =
  mach :: machine
  internalQueue :: "event list"
  acts :: "effect list"

subsection \<open>Guards and delays\<close>

definition isCensored :: "machine \<Rightarrow> bool" where
  "isCensored m = (case censorship m of Censored _ \<Rightarrow> True | Normal \<Rightarrow> False)"

definition isNormal :: "machine \<Rightarrow> bool" where
  "isNormal m = (case censorship m of Normal \<Rightarrow> True | Censored _ \<Rightarrow> False)"

text \<open>
  \<open>context.settings\<close> is the object given to \<open>initPipeline\<close>, so the \<open>: 0\<close> and \<open>: 5000\<close>
  branches of the two delay expressions are never taken. Delays are in milliseconds.
\<close>

definition delay_of :: "delay_name \<Rightarrow> machine \<Rightarrow> int" where
  "delay_of d m = (case d of
       STREAM_DELAY \<Rightarrow> 1000 * delaySeconds (settings m)
     | RESTART_DELAY \<Rightarrow> 1000 * restartSeconds (settings m))"

subsection \<open>Built-in actions\<close>

definition clone :: "machine \<Rightarrow> machine" where
  "clone m = m\<lparr>ident := next_ident m, next_ident := Suc (next_ident m)\<rparr>"

definition exec :: "effect \<Rightarrow> interp \<Rightarrow> interp" where
  "exec a i = i\<lparr>acts := acts i @ [a]\<rparr>"

definition raise :: "event \<Rightarrow> interp \<Rightarrow> interp" where
  "raise e i = i\<lparr>internalQueue := internalQueue i @ [e]\<rparr>"

definition assign_startTime :: "int option \<Rightarrow> interp \<Rightarrow> interp" where
  "assign_startTime v i = i\<lparr>mach := clone ((mach i)\<lparr>startTime := v\<rparr>)\<rparr>"

definition set_timer :: "delay_name \<Rightarrow> int option \<Rightarrow> machine \<Rightarrow> machine" where
  "set_timer d v m = (case d of
       STREAM_DELAY \<Rightarrow> m\<lparr>stream_delay_timer := v\<rparr>
     | RESTART_DELAY \<Rightarrow> m\<lparr>restart_delay_timer := v\<rparr>)"

definition timer_of :: "delay_name \<Rightarrow> machine \<Rightarrow> int option" where
  "timer_of d m = (case d of
       STREAM_DELAY \<Rightarrow> stream_delay_timer m
     | RESTART_DELAY \<Rightarrow> restart_delay_timer m)"

text \<open>
  An \<open>after\<close> block is an entry action that schedules the delayed event and an exit action
  that cancels it. The library hands the delay to the clock of the platform, Node's
  \<open>setTimeout\<close>, which sets a delay below 1 ms or above 2147483647 ms to 1 ms. The clock
  fires a timer no earlier than that many milliseconds after the time \<open>now\<close> of scheduling.
\<close>

definition setTimeout_delay :: "int \<Rightarrow> int" where
  "setTimeout_delay ms = (if 1 \<le> ms \<and> ms \<le> 2147483647 then ms else 1)"

definition schedule :: "int \<Rightarrow> delay_name \<Rightarrow> interp \<Rightarrow> interp" where
  "schedule now d i =
     exec (Schedule d (delay_of d (mach i)))
       (i\<lparr>mach := set_timer d (Some (now + setTimeout_delay (delay_of d (mach i)))) (mach i)\<rparr>)"

definition cancel :: "delay_name \<Rightarrow> interp \<Rightarrow> interp" where
  "cancel d i = exec (Cancel d) (i\<lparr>mach := set_timer d None (mach i)\<rparr>)"

definition spawnChild :: "interp \<Rightarrow> interp" where
  "spawnChild i =
     exec (SpawnChild (next_actor (mach i)))
       (i\<lparr>mach := clone ((mach i)\<lparr>pipelineActor := Some (next_actor (mach i)),
                                   next_actor := Suc (next_actor (mach i))\<rparr>)\<rparr>)"

definition stopChild :: "interp \<Rightarrow> interp" where
  "stopChild i = (case pipelineActor (mach i) of
       None \<Rightarrow> i\<lparr>mach := clone (mach i)\<rparr>
     | Some a \<Rightarrow> exec (StopChild a) (i\<lparr>mach := clone ((mach i)\<lparr>pipelineActor := None\<rparr>)\<rparr>))"

text \<open>
  \<open>sendTo('pipelineActor', ev)\<close> looks the target up among the children of the snapshot and
  throws when there is none, which puts the machine actor into the error status.
\<close>

definition sendTo :: "PipelineControlEvent \<Rightarrow> interp \<Rightarrow> interp" where
  "sendTo ev i = (case pipelineActor (mach i) of
       None \<Rightarrow> i\<lparr>mach := (mach i)\<lparr>status := Status_error\<rparr>\<rparr>
     | Some a \<Rightarrow> exec (SendTo a ev) i)"

subsection \<open>Transitions of the machine configuration\<close>

text \<open>
  One constructor for every transition written in the configuration: the \<open>on\<close> entries,
  the two \<open>after\<close> entries and the two \<open>always\<close> entries of \<open>started\<close>.
\<close>

datatype transition =
    normal_CENSOR
  | censored_UNCENSOR
  | deactivating_after_STREAM_DELAY
  | stream_START
  | stream_STOP
  | stream_PIPELINE_ENDED
  | restarting_after_RESTART_DELAY
  | running_PIPELINE_STARTED
  | running_START
  | started_always_isCensored
  | started_always_isNormal

text \<open>
  Transition selection walks from the active leaf of a region up to the region and takes
  the first state that handles the event, so \<open>START: {}\<close> of \<open>running\<close> shadows
  \<open>START: '.running'\<close> of \<open>stream\<close>. The state \<open>censored\<close> handles \<open>UNCENSOR\<close> only, and
  \<open>CENSOR\<close> is handled by \<open>normal\<close> only.
\<close>

definition censorship_next :: "event \<Rightarrow> censorship_state \<Rightarrow> transition list" where
  "censorship_next ev c = (case c of
       Normal \<Rightarrow> (if ev = CENSOR then [normal_CENSOR] else [])
     | Censored sub \<Rightarrow>
         (if sub = Deactivating \<and> ev = AFTER_STREAM_DELAY then [deactivating_after_STREAM_DELAY]
          else if ev = UNCENSOR then [censored_UNCENSOR]
          else []))"

definition stream_own :: "event \<Rightarrow> stream_state \<Rightarrow> transition list" where
  "stream_own ev s = (case s of
       Stopped \<Rightarrow> []
     | Restarting \<Rightarrow> (if ev = AFTER_RESTART_DELAY then [restarting_after_RESTART_DELAY] else [])
     | Running sub \<Rightarrow>
         (if ev = PIPELINE_STARTED then [running_PIPELINE_STARTED]
          else if ev = START then [running_START]
          else [])
     | Error \<Rightarrow> [])"

definition stream_next :: "event \<Rightarrow> stream_state \<Rightarrow> transition list" where
  "stream_next ev s =
     (if stream_own ev s \<noteq> [] then stream_own ev s
      else if ev = START then [stream_START]
      else if ev = STOP then [stream_STOP]
      else if ev = PIPELINE_ENDED then [stream_PIPELINE_ENDED]
      else [])"

definition selectTransitions :: "event \<Rightarrow> machine \<Rightarrow> transition list" where
  "selectTransitions ev m = censorship_next ev (censorship m) @ stream_next ev (stream m)"

definition selectEventlessTransitions :: "machine \<Rightarrow> transition list" where
  "selectEventlessTransitions m = (case stream m of
       Running Started \<Rightarrow>
         (if isCensored m then [started_always_isCensored]
          else if isNormal m then [started_always_isNormal]
          else [])
     | _ \<Rightarrow> [])"

subsection \<open>Exit and entry of states\<close>

definition set_censorship :: "censorship_state \<Rightarrow> interp \<Rightarrow> interp" where
  "set_censorship c i = i\<lparr>mach := (mach i)\<lparr>censorship := c\<rparr>\<rparr>"

definition set_stream :: "stream_state \<Rightarrow> interp \<Rightarrow> interp" where
  "set_stream s i = i\<lparr>mach := (mach i)\<lparr>stream := s\<rparr>\<rparr>"

text \<open>Exit of the active child of \<open>censored\<close>: \<open>deactivating\<close> cancels its delayed event.\<close>

definition exit_censored_child :: "interp \<Rightarrow> interp" where
  "exit_censored_child i = (case censorship (mach i) of
       Censored Deactivating \<Rightarrow> cancel STREAM_DELAY i
     | _ \<Rightarrow> i)"

text \<open>Exit of the active child of \<open>running\<close>: \<open>started\<close> has \<open>exit: assign({ startTime: null })\<close>.\<close>

definition exit_running_child :: "interp \<Rightarrow> interp" where
  "exit_running_child i = (case stream (mach i) of
       Running Started \<Rightarrow> assign_startTime None i
     | _ \<Rightarrow> i)"

text \<open>
  Exit of everything active below \<open>stream\<close>, deepest state first: \<open>restarting\<close> cancels its
  delayed event, \<open>running\<close> stops the invoked actor after its child has been left.
\<close>

definition exit_stream_child :: "interp \<Rightarrow> interp" where
  "exit_stream_child i = (case stream (mach i) of
       Stopped \<Rightarrow> i
     | Restarting \<Rightarrow> cancel RESTART_DELAY i
     | Running sub \<Rightarrow> stopChild (exit_running_child i)
     | Error \<Rightarrow> i)"

definition enter_normal :: "interp \<Rightarrow> interp" where
  "enter_normal i = raise NORMAL (set_censorship Normal i)"

definition enter_censored :: "interp \<Rightarrow> interp" where
  "enter_censored i = set_censorship (Censored Active) (raise CENSOR i)"

definition enter_deactivating :: "int \<Rightarrow> interp \<Rightarrow> interp" where
  "enter_deactivating now i = schedule now STREAM_DELAY (set_censorship (Censored Deactivating) i)"

definition enter_stopped :: "interp \<Rightarrow> interp" where
  "enter_stopped i = set_stream Stopped i"

definition enter_restarting :: "int \<Rightarrow> interp \<Rightarrow> interp" where
  "enter_restarting now i = schedule now RESTART_DELAY (set_stream Restarting i)"

definition enter_running :: "interp \<Rightarrow> interp" where
  "enter_running i = set_stream (Running Waiting) (spawnChild i)"

text \<open>\<open>started\<close> has \<open>entry: assign({ startTime: () => Date.now() })\<close>.\<close>

definition enter_started :: "int \<Rightarrow> interp \<Rightarrow> interp" where
  "enter_started now i = assign_startTime (Some now) (set_stream (Running Started) i)"

text \<open>
  A transition exits the active states below its domain, runs its own actions and enters
  its targets. A transition to a child of its source (\<open>'.running'\<close>, \<open>'.deactivating'\<close>) does
  not leave the source, but it leaves and re-enters the child when the child is already
  active. The transitions without target only run their actions.
\<close>

definition apply_transition :: "int \<Rightarrow> transition \<Rightarrow> interp \<Rightarrow> interp" where
  "apply_transition now t i = (case t of
       normal_CENSOR \<Rightarrow> enter_censored i
     | censored_UNCENSOR \<Rightarrow> enter_deactivating now (exit_censored_child i)
     | deactivating_after_STREAM_DELAY \<Rightarrow> enter_normal (exit_censored_child i)
     | stream_START \<Rightarrow> enter_running (exit_stream_child i)
     | stream_STOP \<Rightarrow> enter_stopped (exit_stream_child i)
     | stream_PIPELINE_ENDED \<Rightarrow> enter_restarting now (exit_stream_child i)
     | restarting_after_RESTART_DELAY \<Rightarrow> enter_running (exit_stream_child i)
     | running_PIPELINE_STARTED \<Rightarrow> enter_started now (exit_running_child i)
     | running_START \<Rightarrow> i
     | started_always_isCensored \<Rightarrow> sendTo RENDER_CENSORED i
     | started_always_isNormal \<Rightarrow> sendTo RENDER_NORMAL i)"

subsection \<open>Microstep and macrostep\<close>

text \<open>
  A microstep with no transition returns the snapshot object it was given. Otherwise a new
  snapshot object is made when the set of active states differs; when it does not, the
  object is new only if an action (\<open>assign\<close>, starting or stopping a child) made one.
  Every event of this machine enables at most one transition (lemma
  \<open>selectTransitions_at_most_one\<close>), so the transitions are applied one after the other.
\<close>

definition microstep :: "int \<Rightarrow> transition list \<Rightarrow> interp \<Rightarrow> interp" where
  "microstep now ts i =
     (if ts = [] then i
      else (let i' = fold (apply_transition now) ts i
            in if censorship (mach i') = censorship (mach i) \<and> stream (mach i') = stream (mach i)
               then i'
               else i'\<lparr>mach := clone (mach i')\<rparr>))"

text \<open>
  The loop of a macrostep. While the actor is active: eventless transitions are selected
  unless the previous round took eventless transitions and returned the same snapshot
  object; when none is enabled, the next raised event is taken from the internal queue,
  and the loop ends when that queue is empty.
\<close>

function macro_loop :: "int \<Rightarrow> bool \<Rightarrow> interp \<Rightarrow> interp" where
  "macro_loop now shouldSelectEventless i =
     (if status (mach i) \<noteq> Status_active then i
      else if shouldSelectEventless \<and> selectEventlessTransitions (mach i) \<noteq> [] then
        macro_loop now
          (ident (mach (microstep now (selectEventlessTransitions (mach i)) i)) \<noteq> ident (mach i))
          (microstep now (selectEventlessTransitions (mach i)) i)
      else (case internalQueue i of
              [] \<Rightarrow> i
            | e # q \<Rightarrow>
                macro_loop now True
                  (microstep now (selectTransitions e (mach i)) (i\<lparr>internalQueue := q\<rparr>))))"
  by pat_completeness auto

text \<open>
  A macrostep handles one event of the mailbox, with a fresh internal queue. An error
  event of a child that no transition handles puts the actor into the error status.
\<close>

definition macrostep :: "int \<Rightarrow> event \<Rightarrow> machine \<Rightarrow> machine \<times> effect list" where
  "macrostep now ev m =
     (if ev = ERROR_ACTOR \<and> selectTransitions ev m = [] then
        (clone (m\<lparr>status := Status_error\<rparr>), [])
      else (let i = macro_loop now True
                      (microstep now (selectTransitions ev m)
                         \<lparr>mach = m, internalQueue = [], acts = []\<rparr>)
            in (mach i, acts i)))"

text \<open>The measure under which the loop of a macrostep ends.\<close>

definition weight :: "event \<Rightarrow> nat" where
  "weight e = (case e of AFTER_STREAM_DELAY \<Rightarrow> 3 | CENSOR \<Rightarrow> 2 | _ \<Rightarrow> 1)"

definition loop_measure :: "bool \<Rightarrow> interp \<Rightarrow> nat" where
  "loop_measure sel i =
     2 * (sum_list (map weight (internalQueue i)) + (if censorship (mach i) = Normal then 1 else 0))
     + (if sel then 1 else 0)"

text \<open>
  The initial snapshot of \<open>createActor(pipelineMachine, { input: { settings } })\<close>: context
  \<open>{ startTime: null, settings }\<close>, the regions in their initial states \<open>normal\<close> and
  \<open>stopped\<close>, no child. (The \<open>NORMAL\<close> event raised on entering \<open>normal\<close> enables nothing.)
\<close>

definition initial :: "AppSettings \<Rightarrow> machine" where
  "initial argv =
     \<lparr>ident = 0, status = Status_active, censorship = Normal, stream = Stopped,
      startTime = None, settings = argv, pipelineActor = None,
      stream_delay_timer = None, restart_delay_timer = None,
      next_ident = 1, next_actor = 0\<rparr>"

section \<open>The API server (src/src/server.ts, initAPIServer)\<close>

record StatusResponse =
  resp_delaySeconds :: int
  resp_restartSeconds :: int
  resp_isCensored :: bool
  resp_isStreamRunning :: bool
  resp_startTime :: "int option"
  resp_state :: "censorship_state \<times> stream_state"

definition formatStatus :: "machine \<Rightarrow> StatusResponse" where
  "formatStatus snapshot =
     \<lparr>resp_delaySeconds = delaySeconds (settings snapshot),
      resp_restartSeconds = restartSeconds (settings snapshot),
      resp_isCensored = (case censorship snapshot of Censored _ \<Rightarrow> True | Normal \<Rightarrow> False),
      resp_isStreamRunning = (case stream snapshot of Running _ \<Rightarrow> True | _ \<Rightarrow> False),
      resp_startTime = startTime snapshot,
      resp_state = (censorship snapshot, stream snapshot)\<rparr>"

text \<open>
  \<open>handlePatchState\<close>: the events that one \<open>PATCH /status\<close> body or WebSocket message sends
  to the machine, in order. \<open>None\<close> is an absent field.
\<close>

definition handlePatchState :: "bool option \<Rightarrow> bool option \<Rightarrow> event list" where
  "handlePatchState patch_isCensored patch_isStreamRunning =
     (case patch_isCensored of None \<Rightarrow> [] | Some c \<Rightarrow> [if c then CENSOR else UNCENSOR])
     @ (case patch_isStreamRunning of None \<Rightarrow> [] | Some r \<Rightarrow> [if r then START else STOP])"

text \<open>
  The subscriber of \<open>initAPIServer\<close>. \<open>lastSnapshot\<close> holds a reference to a snapshot object
  (\<open>None\<close> is \<open>undefined\<close>), and \<open>snapshot === lastSnapshot\<close> compares references.
  \<open>broadcasts\<close> lists the status messages sent to the connected sockets.
\<close>

record server =
  lastSnapshot :: "nat option"
  broadcasts :: "StatusResponse list"

definition subscriber :: "machine \<Rightarrow> server \<Rightarrow> server" where
  "subscriber snapshot srv =
     (if lastSnapshot srv = Some (ident snapshot) then srv
      else srv\<lparr>lastSnapshot := Some (ident snapshot),
               broadcasts := broadcasts srv @ [formatStatus snapshot]\<rparr>)"

section \<open>The running system\<close>

text \<open>
  The machine actor, the log of the effects it has executed with the time of each, and the
  server's subscriber.
\<close>

record system =
  actor :: machine
  log :: "(int \<times> effect) list"
  srv :: server

definition boot :: "AppSettings \<Rightarrow> system" where
  "boot argv = \<lparr>actor = initial argv, log = [], srv = \<lparr>lastSnapshot = None, broadcasts = []\<rparr>\<rparr>"

definition is_SpawnChild :: "effect \<Rightarrow> bool" where
  "is_SpawnChild a = (case a of SpawnChild _ \<Rightarrow> True | _ \<Rightarrow> False)"

text \<open>
  The mailbox of the machine actor handles one event: a macrostep, then the deferred
  effects, then the observers. An actor that is not active drops the event. A child
  spawned in the macrostep is started with the deferred effects; when the \<open>runPipeline\<close>
  callback throws, the child reports an error event, which the mailbox handles next.
\<close>

definition process :: "int \<Rightarrow> event \<Rightarrow> system \<Rightarrow> system" where
  "process now ev s =
     (if status (actor s) \<noteq> Status_active then s
      else (let (m, effs) = macrostep now ev (actor s);
                s1 = s\<lparr>actor := m, log := log s @ map (Pair now) effs\<rparr>
            in if status m \<noteq> Status_active then s1
               else (let s2 = s1\<lparr>srv := subscriber m (srv s1)\<rparr>
                     in if list_ex is_SpawnChild effs \<and> isl (runPipeline (settings m))
                        then s2\<lparr>actor := fst (macrostep now ERROR_ACTOR m)\<rparr>
                        else s2)))"

text \<open>
  What reaches the mailbox, at a time \<open>now\<close>: a request of the API (main's \<open>START\<close> at launch
  is \<open>Patch None (Some True)\<close>); \<open>sendBack\<close> called by the callback actor with a given
  number; a timer of the clock, which fires only when it is pending and due.

  The two calls \<open>sendBack({ type: 'PIPELINE_ENDED' })\<close> and the call
  \<open>sendBack({ type: 'PIPELINE_STARTED' })\<close> of \<open>runPipeline\<close> carry no mark of the actor they
  come from, and the cleanup function of \<open>runPipeline\<close> does not silence them (killing the
  output script even makes its exit handler call \<open>sendBack\<close>). What keeps such an event from
  the machine is the library: \<open>sendBack\<close> of a callback actor returns without relaying once
  that actor has been stopped, and the machine stops its child when it leaves \<open>running\<close>. So
  an event sent back by actor \<open>a\<close> reaches the mailbox only while \<open>a\<close> is the current child.
\<close>

datatype input =
    Patch "bool option" "bool option"
  | SendBack_PIPELINE_ENDED nat
  | SendBack_PIPELINE_STARTED nat
  | TimerFired delay_name

definition after_event :: "delay_name \<Rightarrow> event" where
  "after_event d = (case d of
       STREAM_DELAY \<Rightarrow> AFTER_STREAM_DELAY
     | RESTART_DELAY \<Rightarrow> AFTER_RESTART_DELAY)"

definition sendBack :: "int \<Rightarrow> nat \<Rightarrow> event \<Rightarrow> system \<Rightarrow> system" where
  "sendBack now a ev s =
     (if pipelineActor (actor s) = Some a then process now ev s else s)"

definition fire :: "int \<Rightarrow> delay_name \<Rightarrow> system \<Rightarrow> system" where
  "fire now d s = (case timer_of d (actor s) of
       None \<Rightarrow> s
     | Some due \<Rightarrow>
         if due \<le> now \<and> status (actor s) = Status_active
         then process now (after_event d) (s\<lparr>actor := set_timer d None (actor s)\<rparr>)
         else s)"

definition deliver :: "int \<Rightarrow> input \<Rightarrow> system \<Rightarrow> system" where
  "deliver now inp s = (case inp of
       Patch c r \<Rightarrow> fold (process now) (handlePatchState c r) s
     | SendBack_PIPELINE_ENDED a \<Rightarrow> sendBack now a PIPELINE_ENDED s
     | SendBack_PIPELINE_STARTED a \<Rightarrow> sendBack now a PIPELINE_STARTED s
     | TimerFired d \<Rightarrow> fire now d s)"

fun run :: "system \<Rightarrow> (int \<times> input) list \<Rightarrow> system" where
  "run s [] = s"
| "run s ((now, inp) # rest) = run (deliver now inp s) rest"

section \<open>Auxiliary notions for the proofs\<close>

text \<open>
  Between two events a machine that is running an engine has a child actor, and only then;
  numbers of snapshot objects and of actors in use are below the counters.
\<close>

definition well_formed :: "machine \<Rightarrow> bool" where
  "well_formed m = (status m = Status_active \<and> ident m < next_ident m
     \<and> (case pipelineActor m of
          None \<Rightarrow> (case stream m of Running _ \<Rightarrow> False | _ \<Rightarrow> True)
        | Some a \<Rightarrow> a < next_actor m \<and> (case stream m of Running _ \<Rightarrow> True | _ \<Rightarrow> False)))"

text \<open>The command that one round of the \<open>always\<close> transitions of \<open>started\<close> sends.\<close>

definition render :: "machine \<Rightarrow> effect list" where
  "render m = (case stream m of
       Running Started \<Rightarrow>
         (case pipelineActor m of
            None \<Rightarrow> []
          | Some a \<Rightarrow> [SendTo a (if isCensored m then RENDER_CENSORED else RENDER_NORMAL)])
     | _ \<Rightarrow> [])"

text \<open>Raised events that enable no transition in the state they are handled in.\<close>

definition quiet :: "event \<Rightarrow> machine \<Rightarrow> bool" where
  "quiet e m = (case e of NORMAL \<Rightarrow> True | CENSOR \<Rightarrow> isCensored m | _ \<Rightarrow> False)"

definition first_microstep :: "int \<Rightarrow> event \<Rightarrow> machine \<Rightarrow> interp" where
  "first_microstep now ev m =
     microstep now (selectTransitions ev m) \<lparr>mach = m, internalQueue = [], acts = []\<rparr>"

definition is_SendTo :: "effect \<Rightarrow> bool" where
  "is_SendTo a = (case a of SendTo _ _ \<Rightarrow> True | _ \<Rightarrow> False)"

text \<open>Concrete settings and machine states, used to instantiate the theorems.\<close>

definition example_settings :: AppSettings where
  "example_settings =
     \<lparr>outUri = Some ''srt://localhost:9999'', inPipeline = None, outPipeline = None,
      encoder = ''x264'', delaySeconds = 15, restartSeconds = 3\<rparr>"

definition example_machine :: "censorship_state \<Rightarrow> stream_state \<Rightarrow> machine" where
  "example_machine c s =
     \<lparr>ident = 5, status = Status_active, censorship = c, stream = s,
      startTime = (case s of Running Started \<Rightarrow> Some 1000 | _ \<Rightarrow> None),
      settings = example_settings,
      pipelineActor = (case s of Running _ \<Rightarrow> Some 0 | _ \<Rightarrow> None),
      stream_delay_timer = (case c of Censored Deactivating \<Rightarrow> Some 16000 | _ \<Rightarrow> None),
      restart_delay_timer = (case s of Restarting \<Rightarrow> Some 4000 | _ \<Rightarrow> None),
      next_ident = 6, next_actor = 1\<rparr>"

text \<open>The invariant that ties \<open>startTime\<close> to the substate \<open>started\<close>.\<close>

definition startTime_inv :: "machine \<Rightarrow> bool" where
  "startTime_inv m = ((startTime m \<noteq> None) = (stream m = Running Started))"

text \<open>Settings whose output URI is neither \<open>rtmp://\<close> nor \<open>srt://\<close>.\<close>

definition bad_settings :: AppSettings where
  "bad_settings = example_settings\<lparr>outUri := Some ''http://localhost:9999''\<rparr>"


text \<open>Settings whose delay, in milliseconds, is above the range of the clock.\<close>

definition long_delay_settings :: AppSettings where
  "long_delay_settings = example_settings\<lparr>delaySeconds := 2147484\<rparr>"

text \<open>
  What holds of the running system between two inputs: an active machine is well formed,
  and an actor that has been stopped is not the current child, nor will its number be
  given out again.
\<close>

definition sys_inv :: "system \<Rightarrow> bool" where
  "sys_inv s = ((status (actor s) = Status_active \<longrightarrow> well_formed (actor s))
     \<and> (\<forall>t a. (t, StopChild a) \<in> set (log s)
            \<longrightarrow> a < next_actor (actor s) \<and> pipelineActor (actor s) \<noteq> Some a))"

text \<open>
  A request of the API that sends \<open>CENSOR\<close>, and the effects that a system has logged since
  an earlier state of the same run.
\<close>

definition is_CENSOR_request :: "input \<Rightarrow> bool" where
  "is_CENSOR_request inp = (case inp of Patch (Some True) r \<Rightarrow> True | _ \<Rightarrow> False)"

definition emitted_since :: "system \<Rightarrow> system \<Rightarrow> (int \<times> effect) list" where
  "emitted_since s s' = drop (length (log s)) (log s')"

text \<open>
  What holds from an \<open>UNCENSOR\<close> received at time \<open>T\<close> in \<open>censored\<close> for as long as no \<open>CENSOR\<close>
  follows, when the delay is in the range of the clock: the region is in \<open>deactivating\<close> with its timer due no earlier than \<open>T\<close> plus the
  delay, or it is in \<open>normal\<close> and that time has passed. \<open>step_ok\<close> adds that the effects of
  the step from \<open>s\<close> to \<open>s'\<close> contain \<open>RENDER_NORMAL\<close> only if that time has passed.
\<close>

definition held :: "AppSettings \<Rightarrow> int \<Rightarrow> int \<Rightarrow> system \<Rightarrow> bool" where
  "held argv T now s =
     (status (actor s) \<noteq> Status_active
      \<or> (well_formed (actor s) \<and> settings (actor s) = argv \<and> T \<le> now
          \<and> 1000 * delaySeconds argv \<le> 2147483647
          \<and> ((censorship (actor s) = Censored Deactivating
                \<and> (\<exists>due. stream_delay_timer (actor s) = Some due
                          \<and> T + 1000 * delaySeconds argv \<le> due))
               \<or> (censorship (actor s) = Normal \<and> T + 1000 * delaySeconds argv \<le> now))))"

definition step_ok :: "AppSettings \<Rightarrow> int \<Rightarrow> int \<Rightarrow> system \<Rightarrow> system \<Rightarrow> bool" where
  "step_ok argv T now s s' =
     (held argv T now s'
      \<and> (\<exists>effs. log s' = log s @ map (Pair now) effs
            \<and> (\<forall>a. SendTo a RENDER_NORMAL \<in> set effs \<longrightarrow> T + 1000 * delaySeconds argv \<le> now)))"

section \<open>The loop of a macrostep ends\<close>

lemmas action_defs = exec_def raise_def assign_startTime_def set_timer_def schedule_def cancel_def
  spawnChild_def stopChild_def sendTo_def clone_def set_censorship_def set_stream_def
  exit_censored_child_def exit_running_child_def exit_stream_child_def enter_normal_def
  enter_censored_def enter_deactivating_def enter_stopped_def enter_restarting_def
  enter_running_def enter_started_def

lemmas select_defs = selectTransitions_def censorship_next_def stream_next_def stream_own_def

lemma eventless_microstep:
  "selectEventlessTransitions (mach i) \<noteq> [] \<Longrightarrow>
   ident (mach (microstep now (selectEventlessTransitions (mach i)) i)) = ident (mach i)
   \<and> internalQueue (microstep now (selectEventlessTransitions (mach i)) i) = internalQueue i
   \<and> censorship (mach (microstep now (selectEventlessTransitions (mach i)) i)) = censorship (mach i)"
  by (auto simp: selectEventlessTransitions_def microstep_def apply_transition_def sendTo_def exec_def
      split: stream_state.splits running_state.splits option.splits if_splits)

lemma event_microstep:
  "loop_measure True (microstep now (selectTransitions e (mach i)) (i\<lparr>internalQueue := q\<rparr>))
     < 2 * (weight e + sum_list (map weight q) + (if censorship (mach i) = Normal then 1 else 0))"
  by (cases e; cases "censorship (mach i)"; cases "stream (mach i)")
     (auto simp: loop_measure_def weight_def select_defs microstep_def apply_transition_def
        action_defs Let_def
      split: censored_state.splits running_state.splits option.splits)

termination macro_loop
proof (relation "measure (\<lambda>(now, sel, i). loop_measure sel i)", goal_cases)
  case 1
  show ?case by simp
next
  case (2 now sel i)
  then have "selectEventlessTransitions (mach i) \<noteq> []" and "sel" by simp_all
  from eventless_microstep[OF this(1), of now] this(2) show ?case
    by (simp add: loop_measure_def)
next
  case (3 now sel i e q)
  with event_microstep[of now e i q] show ?case
    by (simp add: loop_measure_def)
qed

declare macro_loop.simps [simp del]

section \<open>What a macrostep computes\<close>

lemma selectTransitions_at_most_one: "length (selectTransitions ev m) \<le> 1"
  by (cases ev; cases "censorship m"; cases "stream m")
     (simp_all add: select_defs split: censored_state.splits)

lemma selectEventlessTransitions_at_most_one: "length (selectEventlessTransitions m) \<le> 1"
  by (simp add: selectEventlessTransitions_def split: stream_state.splits running_state.splits)

lemma macro_loop_stop:
  "status (mach i) \<noteq> Status_active \<Longrightarrow> macro_loop now sel i = i"
  by (subst macro_loop.simps) simp

lemma macro_loop_eventless:
  "status (mach i) = Status_active \<Longrightarrow> sel \<Longrightarrow> selectEventlessTransitions (mach i) \<noteq> [] \<Longrightarrow>
   macro_loop now sel i =
     macro_loop now
       (ident (mach (microstep now (selectEventlessTransitions (mach i)) i)) \<noteq> ident (mach i))
       (microstep now (selectEventlessTransitions (mach i)) i)"
  by (subst macro_loop.simps) simp

lemma macro_loop_empty:
  "status (mach i) = Status_active \<Longrightarrow> \<not> sel \<or> selectEventlessTransitions (mach i) = [] \<Longrightarrow>
   internalQueue i = [] \<Longrightarrow> macro_loop now sel i = i"
  by (subst macro_loop.simps) auto

lemma macro_loop_event:
  "status (mach i) = Status_active \<Longrightarrow> \<not> sel \<or> selectEventlessTransitions (mach i) = [] \<Longrightarrow>
   internalQueue i = e # q \<Longrightarrow>
   macro_loop now sel i =
     macro_loop now True (microstep now (selectTransitions e (mach i)) (i\<lparr>internalQueue := q\<rparr>))"
  by (subst macro_loop.simps) auto

lemma eventless_render:
  "stream (mach i) = Running Started \<Longrightarrow> pipelineActor (mach i) = Some a \<Longrightarrow>
   microstep now (selectEventlessTransitions (mach i)) i = i\<lparr>acts := acts i @ render (mach i)\<rparr>"
  by (auto simp: selectEventlessTransitions_def microstep_def apply_transition_def sendTo_def
        exec_def render_def isCensored_def isNormal_def split: censorship_state.splits)

lemma eventless_none:
  "stream (mach i) \<noteq> Running Started \<Longrightarrow> selectEventlessTransitions (mach i) = []"
  by (auto simp: selectEventlessTransitions_def split: stream_state.splits running_state.splits)

lemma eventless_some:
  "stream (mach i) = Running Started \<Longrightarrow> selectEventlessTransitions (mach i) \<noteq> []"
  by (auto simp: selectEventlessTransitions_def isCensored_def isNormal_def split: censorship_state.splits)

lemma quiet_select: "quiet e m \<Longrightarrow> selectTransitions e m = []"
  by (cases e; cases "censorship m"; cases "stream m")
     (auto simp: quiet_def select_defs isCensored_def split: running_state.splits)


lemma loop_render_once:
  "status (mach i) = Status_active \<Longrightarrow> stream (mach i) = Running Started \<Longrightarrow>
   pipelineActor (mach i) = Some a \<Longrightarrow>
   macro_loop now True i = macro_loop now False (i\<lparr>acts := acts i @ render (mach i)\<rparr>)"
  apply (subst macro_loop_eventless)
     apply (simp_all add: eventless_some)
  apply (simp add: eventless_render[of i a])
  done

lemma loop_pop_quiet:
  "status (mach i) = Status_active \<Longrightarrow> \<not> sel \<or> stream (mach i) \<noteq> Running Started \<Longrightarrow>
   internalQueue i = e # q \<Longrightarrow> quiet e (mach i) \<Longrightarrow>
   macro_loop now sel i = macro_loop now True (i\<lparr>internalQueue := q\<rparr>)"
  apply (subst macro_loop_event[of i sel e q])
     apply (auto simp: eventless_none quiet_select microstep_def)
  done


lemma macro_loop_closed:
  assumes "status (mach i) = Status_active"
    and "list_all (\<lambda>e. quiet e (mach i)) (internalQueue i)"
    and "stream (mach i) = Running Started \<Longrightarrow> pipelineActor (mach i) \<noteq> None"
  shows "macro_loop now sel i =
     i\<lparr>internalQueue := [],
       acts := acts i @ concat (replicate (length (internalQueue i) + (if sel then 1 else 0))
                                  (render (mach i)))\<rparr>"
  using assms
proof (induction "internalQueue i" arbitrary: i sel)
  case Nil
  show ?case
  proof (cases "sel \<and> stream (mach i) = Running Started")
    case True
    with Nil(4) obtain a where a: "pipelineActor (mach i) = Some a" by auto
    have "macro_loop now sel i = macro_loop now False (i\<lparr>acts := acts i @ render (mach i)\<rparr>)"
      using Nil(2) True a loop_render_once[of i a now] by simp
    also have "\<dots> = i\<lparr>acts := acts i @ render (mach i)\<rparr>"
      using Nil(1,2) by (simp add: macro_loop_empty)
    finally show ?thesis using Nil(1) True by simp
  next
    case False
    then have "\<not> sel \<or> render (mach i) = []"
      by (auto simp: render_def split: stream_state.splits running_state.splits)
    moreover have "macro_loop now sel i = i"
      using Nil(1,2) False by (auto simp: macro_loop_empty eventless_none)
    ultimately show ?thesis using Nil(1) by auto
  qed
next
  case (Cons e q)
  have qi: "internalQueue i = e # q" using Cons(2) by simp
  have qe: "quiet e (mach i)" using Cons(4) qi by simp
  let ?j = "i\<lparr>internalQueue := q\<rparr>"
  have tail: "macro_loop now True k =
      k\<lparr>internalQueue := [],
        acts := acts k @ concat (replicate (length q + 1) (render (mach i)))\<rparr>"
    if "mach k = mach i" "internalQueue k = q" for k
  proof -
    have "macro_loop now True k =
      k\<lparr>internalQueue := [],
        acts := acts k @ concat (replicate (length (internalQueue k) + (if True then 1 else 0))
                                   (render (mach k)))\<rparr>"
      by (rule Cons(1)) (use that Cons(3,4,5) qi in auto)
    then show ?thesis using that by simp
  qed
  show ?case
  proof (cases "sel \<and> stream (mach i) = Running Started")
    case True
    with Cons(5) obtain a where a: "pipelineActor (mach i) = Some a" by auto
    let ?k = "i\<lparr>acts := acts i @ render (mach i)\<rparr>"
    have "macro_loop now sel i = macro_loop now False ?k"
      using Cons(3) True a loop_render_once[of i a now] by simp
    also have "\<dots> = macro_loop now True (?k\<lparr>internalQueue := q\<rparr>)"
      using Cons(3) qi qe loop_pop_quiet[of ?k False e q now] by simp
    also have "\<dots> = (?k\<lparr>internalQueue := q\<rparr>)\<lparr>internalQueue := [],
          acts := acts ?k @ concat (replicate (length q + 1) (render (mach i)))\<rparr>"
      using tail[of "?k\<lparr>internalQueue := q\<rparr>"] by simp
    finally show ?thesis using True qi by simp
  next
    case False
    then have "macro_loop now sel i = macro_loop now True ?j"
      using Cons(3) qi qe loop_pop_quiet[of i sel e q now] by auto
    moreover have "\<not> sel \<or> render (mach i) = []" using False
      by (auto simp: render_def split: stream_state.splits running_state.splits)
    ultimately show ?thesis using tail[of ?j] qi by auto
  qed
qed

lemma macrostep_error: "macrostep now ERROR_ACTOR m = (clone (m\<lparr>status := Status_error\<rparr>), [])"
  by (simp add: macrostep_def select_defs split: censorship_state.splits stream_state.splits)

lemma first_microstep_facts:
  assumes "well_formed m"
  shows "well_formed (mach (first_microstep now ev m))
       \<and> list_all (\<lambda>e. quiet e (mach (first_microstep now ev m))) (internalQueue (first_microstep now ev m))"
  using assms
  by (cases ev; cases "censorship m"; cases "stream m")
     (auto simp: well_formed_def first_microstep_def quiet_def isCensored_def select_defs microstep_def
        apply_transition_def action_defs Let_def
      split: censored_state.splits running_state.splits option.splits)

lemma macrostep_closed:
  assumes "well_formed m" "ev \<noteq> ERROR_ACTOR"
  shows "macrostep now ev m =
     (mach (first_microstep now ev m),
      acts (first_microstep now ev m)
        @ concat (replicate (length (internalQueue (first_microstep now ev m)) + 1)
                    (render (mach (first_microstep now ev m)))))"
proof -
  let ?i = "first_microstep now ev m"
  from first_microstep_facts[OF assms(1), of now ev]
  have w: "well_formed (mach ?i)" and q: "list_all (\<lambda>e. quiet e (mach ?i)) (internalQueue ?i)" by simp_all
  from w have a: "status (mach ?i) = Status_active"
    and c: "stream (mach ?i) = Running Started \<Longrightarrow> pipelineActor (mach ?i) \<noteq> None"
    by (auto simp: well_formed_def split: option.splits)
  have "macro_loop now True ?i =
      ?i\<lparr>internalQueue := [],
         acts := acts ?i @ concat (replicate (length (internalQueue ?i) + (if True then 1 else 0))
                                     (render (mach ?i)))\<rparr>"
    by (rule macro_loop_closed[OF a q c])
  then show ?thesis using assms(2)
    by (simp add: macrostep_def first_microstep_def Let_def)
qed

lemmas step_defs = first_microstep_def select_defs microstep_def apply_transition_def action_defs Let_def

lemma macro_loop_idle:
  "internalQueue i = [] \<Longrightarrow> stream (mach i) \<noteq> Running Started \<Longrightarrow> macro_loop now sel i = i"
  by (cases "status (mach i) = Status_active") (simp_all add: macro_loop_stop macro_loop_empty eventless_none)

lemma macrostep_idle:
  "ev \<noteq> ERROR_ACTOR \<Longrightarrow> internalQueue (first_microstep now ev m) = [] \<Longrightarrow>
   stream (mach (first_microstep now ev m)) \<noteq> Running Started \<Longrightarrow>
   macrostep now ev m = (mach (first_microstep now ev m), acts (first_microstep now ev m))"
  by (simp add: macrostep_def macro_loop_idle first_microstep_def[symmetric] Let_def)

lemma enters_started:
  assumes "well_formed m" and "stream (mach (first_microstep now ev m)) = Running Started"
    and "stream m \<noteq> Running Started \<or> ev = PIPELINE_STARTED"
  shows "ev = PIPELINE_STARTED \<and> internalQueue (first_microstep now ev m) = []
       \<and> filter is_SendTo (acts (first_microstep now ev m)) = []
       \<and> censorship (mach (first_microstep now ev m)) = censorship m
       \<and> pipelineActor (mach (first_microstep now ev m)) = pipelineActor m"
  using assms
  by (cases ev; cases "censorship m"; cases "stream m")
     (auto simp: well_formed_def step_defs is_SendTo_def
      split: censored_state.splits running_state.splits option.splits if_splits)

lemma macro_loop_inv:
  assumes "\<And>now i ts. P (mach i) \<Longrightarrow> P (mach (microstep now ts i))" and "P (mach i)"
  shows "P (mach (macro_loop now sel i))"
  using assms(2)
proof (induction now sel i rule: macro_loop.induct)
  case (1 now sel i)
  note step = assms(1)
  show ?case
  proof (cases "status (mach i) \<noteq> Status_active")
    case True
    then show ?thesis using 1(3) by (simp add: macro_loop_stop)
  next
    case active: False
    show ?thesis
    proof (cases "sel \<and> selectEventlessTransitions (mach i) \<noteq> []")
      case True
      have "P (mach (microstep now (selectEventlessTransitions (mach i)) i))"
        using assms(1) 1(3) by simp
      from 1(1)[OF active True this] show ?thesis
        using active True by (subst macro_loop.simps) simp
    next
      case False
      show ?thesis
      proof (cases "internalQueue i")
        case Nil
        then show ?thesis using active False 1(3) by (subst macro_loop.simps) auto
      next
        case (Cons e q)
        have "P (mach (microstep now (selectTransitions e (mach i)) (i\<lparr>internalQueue := q\<rparr>)))"
          using assms(1)[of "i\<lparr>internalQueue := q\<rparr>" now] 1(3) by simp
        from 1(2)[OF active False Cons this] show ?thesis
          using active False Cons by (subst macro_loop.simps) auto
      qed
    qed
  qed
qed

lemma apply_transition_startTime_inv:
  "startTime_inv (mach i) \<Longrightarrow> startTime_inv (mach (apply_transition now t i))"
  by (cases t; cases "stream (mach i)"; cases "censorship (mach i)")
     (auto simp: startTime_inv_def apply_transition_def action_defs
      split: censored_state.splits running_state.splits option.splits)

lemma fold_startTime_inv:
  "startTime_inv (mach i) \<Longrightarrow> startTime_inv (mach (fold (apply_transition now) ts i))"
  by (induction ts arbitrary: i) (simp_all add: apply_transition_startTime_inv)

lemma microstep_startTime_inv:
  "startTime_inv (mach i) \<Longrightarrow> startTime_inv (mach (microstep now ts i))"
  using fold_startTime_inv[of i now ts]
  by (auto simp: microstep_def Let_def startTime_inv_def clone_def)

lemma macrostep_startTime_inv:
  assumes "startTime_inv m"
  shows "startTime_inv (fst (macrostep now ev m))"
proof (cases "ev = ERROR_ACTOR")
  case True
  then show ?thesis using assms by (simp add: macrostep_error startTime_inv_def clone_def)
next
  case False
  have "startTime_inv (mach (first_microstep now ev m))"
    unfolding first_microstep_def using assms by (intro microstep_startTime_inv) simp
  then have "startTime_inv (mach (macro_loop now True (first_microstep now ev m)))"
    using macro_loop_inv[where P = startTime_inv and i = "first_microstep now ev m" and now = now and sel = True]
      microstep_startTime_inv by blast
  then show ?thesis
    using False by (simp add: macrostep_def first_microstep_def[symmetric] Let_def)
qed

lemma microstep_not_Error:
  "stream (mach i) \<noteq> Error \<Longrightarrow> stream (mach (microstep now ts i)) \<noteq> Error"
proof -
  have a: "stream (mach j) \<noteq> Error \<Longrightarrow> stream (mach (apply_transition now t j)) \<noteq> Error" for t j
    by (cases t; cases "stream (mach j)"; cases "censorship (mach j)")
       (auto simp: apply_transition_def action_defs
        split: censored_state.splits running_state.splits option.splits)
  have "stream (mach j) \<noteq> Error \<Longrightarrow> stream (mach (fold (apply_transition now) ts j)) \<noteq> Error" for j
    by (induction ts arbitrary: j) (simp_all add: a)
  then show "stream (mach i) \<noteq> Error \<Longrightarrow> stream (mach (microstep now ts i)) \<noteq> Error"
    by (auto simp: microstep_def Let_def clone_def)
qed

lemma Error_state_never_entered:
  assumes "stream m \<noteq> Error"
  shows "stream (fst (macrostep now ev m)) \<noteq> Error"
proof (cases "ev = ERROR_ACTOR")
  case True
  then show ?thesis using assms by (simp add: macrostep_error clone_def)
next
  case False
  have "stream (mach (first_microstep now ev m)) \<noteq> Error"
    unfolding first_microstep_def using assms by (intro microstep_not_Error) simp
  then have "stream (mach (macro_loop now True (first_microstep now ev m))) \<noteq> Error"
    using macro_loop_inv[where P = "\<lambda>m. stream m \<noteq> Error" and i = "first_microstep now ev m"
        and now = now and sel = True]
      microstep_not_Error by blast
  then show ?thesis
    using False by (simp add: macrostep_def first_microstep_def[symmetric] Let_def)
qed

section \<open>Invariants of the running system\<close>


lemma first_microstep_actors:
  assumes "well_formed m"
  shows "next_actor m \<le> next_actor (mach (first_microstep now ev m))
       \<and> (\<forall>a. StopChild a \<in> set (acts (first_microstep now ev m))
              \<longrightarrow> pipelineActor m = Some a \<and> pipelineActor (mach (first_microstep now ev m)) \<noteq> Some a)
       \<and> (\<forall>b. pipelineActor (mach (first_microstep now ev m)) = Some b
              \<longrightarrow> pipelineActor m = Some b \<or> next_actor m \<le> b)"
  using assms
  by (cases ev; cases "censorship m"; cases "stream m")
     (auto simp: well_formed_def step_defs
      split: censored_state.splits running_state.splits option.splits)

lemma render_SendTo: "set (concat (replicate n (render m))) \<subseteq> range (\<lambda>(a, c). SendTo a c)"
  by (auto simp: render_def split: stream_state.splits running_state.splits option.splits)

lemma render_no_Stop: "StopChild a \<notin> set (concat (replicate n (render m)))"
  using render_SendTo[of n m] by auto


lemma macrostep_wf:
  assumes "well_formed m" "ev \<noteq> ERROR_ACTOR"
  shows "well_formed (fst (macrostep now ev m))"
  using macrostep_closed[OF assms, of now] first_microstep_facts[OF assms(1), of now ev] by simp


lemma macrostep_actors:
  assumes "well_formed m" "ev \<noteq> ERROR_ACTOR"
  shows "next_actor m \<le> next_actor (fst (macrostep now ev m))
       \<and> (\<forall>a. StopChild a \<in> set (snd (macrostep now ev m))
              \<longrightarrow> pipelineActor m = Some a \<and> pipelineActor (fst (macrostep now ev m)) \<noteq> Some a)
       \<and> (\<forall>b. pipelineActor (fst (macrostep now ev m)) = Some b
              \<longrightarrow> pipelineActor m = Some b \<or> next_actor m \<le> b)"
  using macrostep_closed[OF assms, of now] first_microstep_actors[OF assms(1), of now ev]
    render_no_Stop[of _ "length (internalQueue (first_microstep now ev m)) + 1" "mach (first_microstep now ev m)"]
  by auto

lemma process_inactive: "status (actor s) \<noteq> Status_active \<Longrightarrow> process now ev s = s"
  by (simp add: process_def)

lemma process_active:
  assumes "well_formed (actor s)" "ev \<noteq> ERROR_ACTOR"
  shows "process now ev s =
     (if list_ex is_SpawnChild (snd (macrostep now ev (actor s)))
         \<and> isl (runPipeline (settings (fst (macrostep now ev (actor s)))))
      then s\<lparr>actor := clone ((fst (macrostep now ev (actor s)))\<lparr>status := Status_error\<rparr>),
             log := log s @ map (Pair now) (snd (macrostep now ev (actor s))),
             srv := subscriber (fst (macrostep now ev (actor s))) (srv s)\<rparr>
      else s\<lparr>actor := fst (macrostep now ev (actor s)),
             log := log s @ map (Pair now) (snd (macrostep now ev (actor s))),
             srv := subscriber (fst (macrostep now ev (actor s))) (srv s)\<rparr>)"
proof -
  have a: "status (actor s) = Status_active" using assms(1) by (simp add: well_formed_def)
  have b: "status (fst (macrostep now ev (actor s))) = Status_active"
    using macrostep_wf[OF assms, of now] by (simp add: well_formed_def)
  show ?thesis
    using a b by (cases "macrostep now ev (actor s)") (simp add: process_def macrostep_error Let_def)
qed

lemma process_sys_inv:
  assumes "sys_inv s" "ev \<noteq> ERROR_ACTOR"
  shows "sys_inv (process now ev s)"
proof (cases "status (actor s) = Status_active")
  case False
  then show ?thesis using assms(1) by (simp add: process_inactive)
next
  case True
  with assms(1) have w: "well_formed (actor s)" by (simp add: sys_inv_def)
  note p = process_active[OF w assms(2), of now]
  note w' = macrostep_wf[OF w assms(2), of now]
  note a = macrostep_actors[OF w assms(2), of now]
  have bound: "\<And>b. pipelineActor (actor s) = Some b \<Longrightarrow> b < next_actor (actor s)"
    using w by (auto simp: well_formed_def split: option.splits)
  have stops: "\<And>t c. (t, StopChild c) \<in> set (log s)
      \<Longrightarrow> c < next_actor (actor s) \<and> pipelineActor (actor s) \<noteq> Some c"
    using assms(1) by (auto simp: sys_inv_def)
  have k: "c < next_actor (fst (macrostep now ev (actor s)))
         \<and> pipelineActor (fst (macrostep now ev (actor s))) \<noteq> Some c"
    if "(t, StopChild c) \<in> set (log s @ map (Pair now) (snd (macrostep now ev (actor s))))" for t c
  proof (cases "(t, StopChild c) \<in> set (log s)")
    case True
    from stops[OF this] a show ?thesis by (metis leD less_le_trans)
  next
    case False
    with that have "StopChild c \<in> set (snd (macrostep now ev (actor s)))" by auto
    with a have "pipelineActor (actor s) = Some c"
      and "pipelineActor (fst (macrostep now ev (actor s))) \<noteq> Some c" by blast+
    with bound[of c] a show ?thesis by (metis less_le_trans)
  qed
  show ?thesis
    unfolding p sys_inv_def using w' k by (auto simp: clone_def)
qed

lemma sendBack_sys_inv: "sys_inv s \<Longrightarrow> ev \<noteq> ERROR_ACTOR \<Longrightarrow> sys_inv (sendBack now a ev s)"
  by (simp add: sendBack_def process_sys_inv)

lemma fire_sys_inv: "sys_inv s \<Longrightarrow> sys_inv (fire now d s)"
proof -
  assume s: "sys_inv s"
  have "sys_inv (s\<lparr>actor := set_timer d None (actor s)\<rparr>)"
    using s by (cases d) (auto simp: sys_inv_def well_formed_def set_timer_def split: option.splits)
  moreover have "after_event d \<noteq> ERROR_ACTOR" by (cases d) (simp_all add: after_event_def)
  ultimately show ?thesis
    using s by (auto simp: fire_def process_sys_inv split: option.splits)
qed

lemma fold_process_sys_inv:
  "sys_inv s \<Longrightarrow> ERROR_ACTOR \<notin> set evs \<Longrightarrow> sys_inv (fold (process now) evs s)"
  by (induction evs arbitrary: s) (auto simp: process_sys_inv)

lemma handlePatchState_events: "set (handlePatchState c r) \<subseteq> {CENSOR, UNCENSOR, START, STOP}"
  by (auto simp: handlePatchState_def split: option.splits)

lemma deliver_sys_inv: "sys_inv s \<Longrightarrow> sys_inv (deliver now inp s)"
  using handlePatchState_events
  by (cases inp) (auto simp: deliver_def sendBack_sys_inv fire_sys_inv intro!: fold_process_sys_inv)

lemma run_sys_inv: "sys_inv s \<Longrightarrow> sys_inv (run s tr)"
  by (induction s tr rule: run.induct) (simp_all add: deliver_sys_inv)

lemma boot_sys_inv: "sys_inv (boot argv)"
  by (simp add: sys_inv_def boot_def initial_def well_formed_def)

section \<open>The release delay\<close>

lemma setTimeout_delay_ge: "ms \<le> 2147483647 \<Longrightarrow> ms \<le> setTimeout_delay ms"
  by (simp add: setTimeout_delay_def)

lemma first_microstep_Normal:
  "ev \<noteq> CENSOR \<Longrightarrow> censorship m = Normal \<Longrightarrow> censorship (mach (first_microstep now ev m)) = Normal"
  by (cases ev; cases "stream m")
     (simp_all add: step_defs split: running_state.splits option.splits)

lemma first_microstep_UNCENSOR:
  "censorship m = Censored c \<Longrightarrow>
     censorship (mach (first_microstep now UNCENSOR m)) = Censored Deactivating
   \<and> stream_delay_timer (mach (first_microstep now UNCENSOR m))
       = Some (now + setTimeout_delay (1000 * delaySeconds (settings m)))"
  by (cases c; cases "stream m")
     (simp_all add: step_defs delay_of_def split: running_state.splits)

lemma first_microstep_Deactivating:
  "censorship m = Censored Deactivating \<Longrightarrow> ev \<noteq> UNCENSOR \<Longrightarrow> ev \<noteq> AFTER_STREAM_DELAY \<Longrightarrow>
     censorship (mach (first_microstep now ev m)) = Censored Deactivating
   \<and> stream_delay_timer (mach (first_microstep now ev m)) = stream_delay_timer m"
  by (cases ev; cases "stream m")
     (simp_all add: step_defs split: running_state.splits option.splits)

lemma first_microstep_settings:
  "settings (mach (first_microstep now ev m)) = settings m"
  by (cases ev; cases "censorship m"; cases "stream m")
     (simp_all add: step_defs split: censored_state.splits running_state.splits option.splits)

lemma first_microstep_no_SendTo:
  "SendTo a c \<notin> set (acts (first_microstep now ev m))"
  by (cases ev; cases "censorship m"; cases "stream m")
     (simp_all add: step_defs split: censored_state.splits running_state.splits option.splits)

lemma render_NORMAL:
  "SendTo a RENDER_NORMAL \<in> set (concat (replicate n (render m))) \<Longrightarrow> censorship m = Normal"
  by (auto simp: render_def isCensored_def
      split: stream_state.splits running_state.splits option.splits censorship_state.splits if_splits)

lemma macrostep_split:
  assumes "well_formed m" "ev \<noteq> ERROR_ACTOR"
  shows "fst (macrostep now ev m) = mach (first_microstep now ev m)"
    and "SendTo a RENDER_NORMAL \<in> set (snd (macrostep now ev m))
         \<Longrightarrow> censorship (fst (macrostep now ev m)) = Normal"
proof -
  let ?i = "first_microstep now ev m"
  note c = macrostep_closed[OF assms, of now]
  show "fst (macrostep now ev m) = mach ?i" using c by simp
  assume "SendTo a RENDER_NORMAL \<in> set (snd (macrostep now ev m))"
  then have "SendTo a RENDER_NORMAL
      \<in> set (concat (replicate (length (internalQueue ?i) + 1) (render (mach ?i))))"
    using c first_microstep_no_SendTo[of a RENDER_NORMAL now ev m] by simp
  from render_NORMAL[OF this] show "censorship (fst (macrostep now ev m)) = Normal"
    using c by simp
qed

lemma first_microstep_AFTER_STREAM_DELAY:
  "censorship m = Censored Deactivating \<Longrightarrow>
     censorship (mach (first_microstep now AFTER_STREAM_DELAY m)) = Normal"
  by (cases "stream m") (simp_all add: step_defs split: running_state.splits)

lemma step_ok_trans:
  "step_ok argv T now s s' \<Longrightarrow> step_ok argv T now s' s'' \<Longrightarrow> step_ok argv T now s s''"
  unfolding step_ok_def
proof (elim conjE exE, intro conjI)
  fix e1 e2
  assume a: "log s' = log s @ map (Pair now) e1" "log s'' = log s' @ map (Pair now) e2"
    and b: "\<forall>a. SendTo a RENDER_NORMAL \<in> set e1 \<longrightarrow> T + 1000 * delaySeconds argv \<le> now"
      "\<forall>a. SendTo a RENDER_NORMAL \<in> set e2 \<longrightarrow> T + 1000 * delaySeconds argv \<le> now"
  have "log s'' = log s @ map (Pair now) (e1 @ e2)" using a by simp
  moreover have "\<forall>a. SendTo a RENDER_NORMAL \<in> set (e1 @ e2) \<longrightarrow> T + 1000 * delaySeconds argv \<le> now"
    using b by auto
  ultimately show "\<exists>effs. log s'' = log s @ map (Pair now) effs
     \<and> (\<forall>a. SendTo a RENDER_NORMAL \<in> set effs \<longrightarrow> T + 1000 * delaySeconds argv \<le> now)"
    by blast
qed simp

lemma step_ok_refl: "held argv T now s \<Longrightarrow> step_ok argv T now s s"
  unfolding step_ok_def by (auto intro: exI[of _ "[]"])

lemma held_mono: "held argv T t0 s \<Longrightarrow> t0 \<le> now \<Longrightarrow> held argv T now s"
  by (auto simp: held_def)

text \<open>One event that is neither \<open>CENSOR\<close> nor the release timer.\<close>

lemma process_step_ok:
  assumes h: "held argv T now s"
    and ev: "ev \<noteq> CENSOR" "ev \<noteq> ERROR_ACTOR" "ev \<noteq> AFTER_STREAM_DELAY"
  shows "step_ok argv T now s (process now ev s)"
proof (cases "status (actor s) = Status_active")
  case False
  then show ?thesis using h by (simp add: process_inactive step_ok_refl)
next
  case True
  with h have w: "well_formed (actor s)" and st: "settings (actor s) = argv" and T: "T \<le> now"
    and b: "1000 * delaySeconds argv \<le> 2147483647"
    by (auto simp: held_def)
  let ?m = "actor s"
  let ?m' = "fst (macrostep now ev ?m)"
  let ?e = "snd (macrostep now ev ?m)"
  note p = process_active[OF w ev(2), of now]
  note sp = macrostep_split[where now = now, OF w ev(2)]
  have w': "well_formed ?m'" by (rule macrostep_wf[OF w ev(2)])
  have st': "settings ?m' = argv" using sp(1) first_microstep_settings[of now ev ?m] st by simp
  have lg: "log (process now ev s) = log s @ map (Pair now) ?e" using p by simp
  from h True consider
      (deact) due where "censorship ?m = Censored Deactivating" "stream_delay_timer ?m = Some due"
        "T + 1000 * delaySeconds argv \<le> due"
    | (norm) "censorship ?m = Normal" "T + 1000 * delaySeconds argv \<le> now"
    by (auto simp: held_def)
  then have core: "((censorship ?m' = Censored Deactivating
                \<and> (\<exists>due. stream_delay_timer ?m' = Some due \<and> T + 1000 * delaySeconds argv \<le> due))
               \<or> (censorship ?m' = Normal \<and> T + 1000 * delaySeconds argv \<le> now))
            \<and> (\<forall>a. SendTo a RENDER_NORMAL \<in> set ?e \<longrightarrow> T + 1000 * delaySeconds argv \<le> now)"
  proof cases
    case deact
    have d: "censorship ?m' = Censored Deactivating
        \<and> (\<exists>due. stream_delay_timer ?m' = Some due \<and> T + 1000 * delaySeconds argv \<le> due)"
    proof (cases "ev = UNCENSOR")
      case True
      from first_microstep_UNCENSOR[OF deact(1), of now] sp(1) True st T setTimeout_delay_ge[OF b]
      show ?thesis by auto
    next
      case False
      from first_microstep_Deactivating[OF deact(1) False ev(3), of now] sp(1) deact(2,3)
      show ?thesis by auto
    qed
    then have "\<forall>a. SendTo a RENDER_NORMAL \<notin> set ?e" using sp(2) by fastforce
    with d show ?thesis by blast
  next
    case norm
    from first_microstep_Normal[OF ev(1) norm(1), of now] sp(1) norm(2)
    show ?thesis by auto
  qed
  have hd: "held argv T now (process now ev s)"
  proof (cases "list_ex is_SpawnChild ?e \<and> isl (runPipeline (settings ?m'))")
    case True
    then have "status (actor (process now ev s)) = Status_error" using p by (simp add: clone_def)
    then show ?thesis by (simp add: held_def)
  next
    case False
    then have "actor (process now ev s) = ?m'" using p by auto
    then show ?thesis using w' st' T b core by (simp add: held_def)
  qed
  show ?thesis
    unfolding step_ok_def using hd lg core by blast
qed

lemma step_ok_same_log: "log s0 = log s \<Longrightarrow> step_ok argv T now s s' \<Longrightarrow> step_ok argv T now s0 s'"
  by (simp add: step_ok_def)

text \<open>The release timer, handled at a time at which the delay has passed.\<close>

lemma process_AFTER_STREAM_DELAY_step_ok:
  assumes w: "well_formed (actor s)" and st: "settings (actor s) = argv"
    and T: "T \<le> now" "T + 1000 * delaySeconds argv \<le> now"
    and b: "1000 * delaySeconds argv \<le> 2147483647"
    and c: "censorship (actor s) = Censored Deactivating \<or> censorship (actor s) = Normal"
  shows "step_ok argv T now s (process now AFTER_STREAM_DELAY s)"
proof -
  let ?ev = AFTER_STREAM_DELAY
  let ?m' = "fst (macrostep now ?ev (actor s))"
  let ?e = "snd (macrostep now ?ev (actor s))"
  have ne: "?ev \<noteq> ERROR_ACTOR" "?ev \<noteq> CENSOR" by simp_all
  note p = process_active[OF w ne(1), of now]
  note sp = macrostep_split[where now = now, OF w ne(1)]
  have w': "well_formed ?m'" by (rule macrostep_wf[OF w ne(1)])
  have st': "settings ?m' = argv" using sp(1) first_microstep_settings[of now ?ev "actor s"] st by simp
  have n: "censorship ?m' = Normal"
    using c first_microstep_AFTER_STREAM_DELAY[of "actor s" now]
      first_microstep_Normal[OF ne(2), of "actor s" now] sp(1) by auto
  have hd: "held argv T now (process now ?ev s)"
  proof (cases "list_ex is_SpawnChild ?e \<and> isl (runPipeline (settings ?m'))")
    case True
    then have "status (actor (process now ?ev s)) = Status_error" using p by (simp add: clone_def)
    then show ?thesis by (simp add: held_def)
  next
    case False
    then have "actor (process now ?ev s) = ?m'" using p by auto
    then show ?thesis using w' st' T b n by (simp add: held_def)
  qed
  have "log (process now ?ev s) = log s @ map (Pair now) ?e" using p by simp
  then show ?thesis unfolding step_ok_def using hd T(2) by blast
qed

lemma fire_step_ok:
  assumes h: "held argv T now s"
  shows "step_ok argv T now s (fire now d s)"
proof (cases "\<exists>due. timer_of d (actor s) = Some due \<and> due \<le> now \<and> status (actor s) = Status_active")
  case False
  then have "fire now d s = s" by (auto simp: fire_def split: option.splits)
  then show ?thesis using h by (simp add: step_ok_refl)
next
  case True
  then obtain due where due: "timer_of d (actor s) = Some due" "due \<le> now"
    and a: "status (actor s) = Status_active" by blast
  let ?s = "s\<lparr>actor := set_timer d None (actor s)\<rparr>"
  have f: "fire now d s = process now (after_event d) ?s" using due a by (simp add: fire_def)
  from h a have w: "well_formed (actor s)" and st: "settings (actor s) = argv" and T: "T \<le> now"
    and b: "1000 * delaySeconds argv \<le> 2147483647"
    by (auto simp: held_def)
  have w': "well_formed (actor ?s)" using w by (cases d) (auto simp: well_formed_def set_timer_def split: option.splits)
  have st': "settings (actor ?s) = argv" using st by (cases d) (simp_all add: set_timer_def)
  have l: "log s = log ?s" by simp
  show ?thesis
  proof (cases d)
    case STREAM_DELAY
    from h a consider "censorship (actor s) = Censored Deactivating"
        "\<exists>due'. stream_delay_timer (actor s) = Some due' \<and> T + 1000 * delaySeconds argv \<le> due'"
      | "censorship (actor s) = Normal" "T + 1000 * delaySeconds argv \<le> now"
      by (auto simp: held_def)
    then have late: "T + 1000 * delaySeconds argv \<le> now"
      using due STREAM_DELAY by cases (auto simp: timer_of_def)
    have c: "censorship (actor ?s) = Censored Deactivating \<or> censorship (actor ?s) = Normal"
      using h a STREAM_DELAY by (auto simp: held_def set_timer_def)
    from process_AFTER_STREAM_DELAY_step_ok[OF w' st' T late b c]
    show ?thesis using f STREAM_DELAY by (auto simp: after_event_def intro: step_ok_same_log[OF l])
  next
    case RESTART_DELAY
    have "held argv T now ?s"
      using h a w' st' RESTART_DELAY by (auto simp: held_def set_timer_def)
    from process_step_ok[OF this, of AFTER_RESTART_DELAY]
    show ?thesis using f RESTART_DELAY by (auto simp: after_event_def intro: step_ok_same_log[OF l])
  qed
qed

lemma fold_process_step_ok:
  "held argv T now s \<Longrightarrow> CENSOR \<notin> set evs \<Longrightarrow> ERROR_ACTOR \<notin> set evs \<Longrightarrow>
   AFTER_STREAM_DELAY \<notin> set evs \<Longrightarrow> step_ok argv T now s (fold (process now) evs s)"
proof (induction evs arbitrary: s)
  case Nil
  then show ?case by (simp add: step_ok_refl)
next
  case (Cons e evs)
  have a: "step_ok argv T now s (process now e s)"
    using Cons.prems by (intro process_step_ok) auto
  then have "held argv T now (process now e s)" by (simp add: step_ok_def)
  from Cons.IH[OF this] Cons.prems
  have "step_ok argv T now (process now e s) (fold (process now) evs (process now e s))" by simp
  with a show ?case by (auto intro: step_ok_trans)
qed

lemma deliver_step_ok:
  assumes "held argv T now s" "\<not> is_CENSOR_request inp"
  shows "step_ok argv T now s (deliver now inp s)"
proof (cases inp)
  case (Patch c r)
  with assms(2) have "c \<noteq> Some True" by (auto simp: is_CENSOR_request_def)
  then have "CENSOR \<notin> set (handlePatchState c r)" "ERROR_ACTOR \<notin> set (handlePatchState c r)"
    "AFTER_STREAM_DELAY \<notin> set (handlePatchState c r)"
    by (auto simp: handlePatchState_def split: option.splits)
  from fold_process_step_ok[OF assms(1) this] show ?thesis using Patch by (simp add: deliver_def)
next
  case (SendBack_PIPELINE_ENDED a)
  then show ?thesis
    using process_step_ok[OF assms(1), of PIPELINE_ENDED] assms(1)
    by (simp add: deliver_def sendBack_def step_ok_refl)
next
  case (SendBack_PIPELINE_STARTED a)
  then show ?thesis
    using process_step_ok[OF assms(1), of PIPELINE_STARTED] assms(1)
    by (simp add: deliver_def sendBack_def step_ok_refl)
next
  case (TimerFired d)
  then show ?thesis using fire_step_ok[OF assms(1)] by (simp add: deliver_def)
qed

lemma log_process: "\<exists>ext. log (process now ev s) = log s @ ext"
  by (cases "macrostep now ev (actor s)") (simp add: process_def Let_def)

lemma log_fold_process: "\<exists>ext. log (fold (process now) evs s) = log s @ ext"
proof (induction evs arbitrary: s)
  case Nil
  show ?case by simp
next
  case (Cons e evs)
  from log_process[of now e s] obtain x where x: "log (process now e s) = log s @ x" by blast
  from Cons[of "process now e s"] obtain y
    where "log (fold (process now) evs (process now e s)) = log (process now e s) @ y" by blast
  with x show ?case by simp
qed

lemma log_deliver: "\<exists>ext. log (deliver now inp s) = log s @ ext"
proof (cases inp)
  case (Patch c r)
  then show ?thesis using log_fold_process by (simp add: deliver_def)
next
  case (SendBack_PIPELINE_ENDED a)
  then show ?thesis using log_process by (simp add: deliver_def sendBack_def)
next
  case (SendBack_PIPELINE_STARTED a)
  then show ?thesis using log_process by (simp add: deliver_def sendBack_def)
next
  case (TimerFired d)
  have "\<exists>ext. log (process now (after_event d) (s\<lparr>actor := set_timer d None (actor s)\<rparr>)) = log s @ ext"
    using log_process[of now "after_event d" "s\<lparr>actor := set_timer d None (actor s)\<rparr>"] by simp
  then show ?thesis using TimerFired by (auto simp: deliver_def fire_def split: option.splits)
qed

lemma log_run: "\<exists>ext. log (run s tr) = log s @ ext"
proof (induction s tr rule: run.induct)
  case (1 s)
  show ?case by simp
next
  case (2 s now inp rest)
  from log_deliver[of now inp s] obtain x where "log (deliver now inp s) = log s @ x" by blast
  with 2 show ?case by auto
qed

lemma run_append: "run s (xs @ ys) = run (run s xs) ys"
  by (induction s xs rule: run.induct) simp_all

lemma run_emitted:
  assumes "held argv T t0 s" and "sorted (t0 # map fst post)"
    and "list_all (\<lambda>x. \<not> is_CENSOR_request (snd x)) post"
    and "(t, SendTo a RENDER_NORMAL) \<in> set (emitted_since s (run s post))"
  shows "T + 1000 * delaySeconds argv \<le> t"
  using assms
proof (induction post arbitrary: s t0)
  case Nil
  then show ?case by (simp add: emitted_since_def)
next
  case (Cons x post)
  obtain t1 inp where x: "x = (t1, inp)" by (cases x)
  let ?s1 = "deliver t1 inp s"
  have le: "t0 \<le> t1" and srt: "sorted (t1 # map fst post)" using Cons.prems(2) x by auto
  have nc: "\<not> is_CENSOR_request inp" and rest: "list_all (\<lambda>x. \<not> is_CENSOR_request (snd x)) post"
    using Cons.prems(3) x by auto
  from deliver_step_ok[OF held_mono[OF Cons.prems(1) le] nc]
  have ok: "step_ok argv T t1 s ?s1" .
  then obtain effs where h1: "held argv T t1 ?s1"
    and l1: "log ?s1 = log s @ map (Pair t1) effs"
    and e1: "\<forall>a. SendTo a RENDER_NORMAL \<in> set effs \<longrightarrow> T + 1000 * delaySeconds argv \<le> t1"
    by (auto simp: step_ok_def)
  from log_run[of ?s1 post] obtain ext where l2: "log (run ?s1 post) = log ?s1 @ ext" by blast
  have "emitted_since s (run s (x # post)) = map (Pair t1) effs @ emitted_since ?s1 (run ?s1 post)"
    using x l1 l2 by (simp add: emitted_since_def)
  with Cons.prems(4) consider "(t, SendTo a RENDER_NORMAL) \<in> set (map (Pair t1) effs)"
    | "(t, SendTo a RENDER_NORMAL) \<in> set (emitted_since ?s1 (run ?s1 post))" by auto
  then show ?case
  proof cases
    case 1
    then show ?thesis using e1 by auto
  next
    case 2
    from Cons.IH[OF h1 srt rest 2] show ?thesis .
  qed
qed

lemma process_settings:
  assumes "sys_inv s" "ev \<noteq> ERROR_ACTOR"
  shows "settings (actor (process now ev s)) = settings (actor s)"
proof (cases "status (actor s) = Status_active")
  case False
  then show ?thesis by (simp add: process_inactive)
next
  case True
  with assms(1) have w: "well_formed (actor s)" by (simp add: sys_inv_def)
  show ?thesis
    using process_active[OF w assms(2), of now] macrostep_split(1)[where now = now, OF w assms(2)]
      first_microstep_settings[of now ev "actor s"]
    by (auto simp: clone_def)
qed

lemma fold_process_settings:
  "sys_inv s \<Longrightarrow> ERROR_ACTOR \<notin> set evs \<Longrightarrow>
   settings (actor (fold (process now) evs s)) = settings (actor s)"
  by (induction evs arbitrary: s) (auto simp: process_settings process_sys_inv)

lemma deliver_settings:
  assumes "sys_inv s"
  shows "settings (actor (deliver now inp s)) = settings (actor s)"
proof (cases inp)
  case (Patch c r)
  have "ERROR_ACTOR \<notin> set (handlePatchState c r)" using handlePatchState_events[of c r] by auto
  from fold_process_settings[OF assms this] show ?thesis using Patch by (simp add: deliver_def)
next
  case (SendBack_PIPELINE_ENDED a)
  then show ?thesis using process_settings[OF assms, of PIPELINE_ENDED] by (simp add: deliver_def sendBack_def)
next
  case (SendBack_PIPELINE_STARTED a)
  then show ?thesis using process_settings[OF assms, of PIPELINE_STARTED] by (simp add: deliver_def sendBack_def)
next
  case (TimerFired d)
  let ?s = "s\<lparr>actor := set_timer d None (actor s)\<rparr>"
  have i: "sys_inv ?s" using assms by (cases d) (auto simp: sys_inv_def well_formed_def set_timer_def split: option.splits)
  have e: "after_event d \<noteq> ERROR_ACTOR" by (cases d) (simp_all add: after_event_def)
  have "settings (actor ?s) = settings (actor s)" by (cases d) (simp_all add: set_timer_def)
  with process_settings[OF i e, of now] show ?thesis
    using TimerFired by (auto simp: deliver_def fire_def split: option.splits)
qed

lemma run_settings: "sys_inv s \<Longrightarrow> settings (actor (run s tr)) = settings (actor s)"
  by (induction s tr rule: run.induct) (simp_all add: deliver_settings deliver_sys_inv)

text \<open>The \<open>UNCENSOR\<close> itself, received while censored.\<close>

lemma UNCENSOR_step_ok:
  assumes i: "sys_inv s" and st: "settings (actor s) = argv" and c: "censorship (actor s) = Censored c"
    and b: "1000 * delaySeconds argv \<le> 2147483647"
  shows "step_ok argv T T s (deliver T (Patch (Some False) r) s)"
proof -
  have first: "step_ok argv T T s (process T UNCENSOR s)"
  proof (cases "status (actor s) = Status_active")
    case False
    then show ?thesis by (simp add: process_inactive step_ok_refl held_def)
  next
    case True
    with i have w: "well_formed (actor s)" by (simp add: sys_inv_def)
    let ?m' = "fst (macrostep T UNCENSOR (actor s))"
    let ?e = "snd (macrostep T UNCENSOR (actor s))"
    have ne: "UNCENSOR \<noteq> ERROR_ACTOR" by simp
    note p = process_active[OF w ne, of T]
    note sp = macrostep_split[where now = T, OF w ne]
    have w': "well_formed ?m'" by (rule macrostep_wf[OF w ne])
    have st': "settings ?m' = argv" using sp(1) first_microstep_settings[of T UNCENSOR "actor s"] st by simp
    have d: "censorship ?m' = Censored Deactivating"
      "stream_delay_timer ?m' = Some (T + setTimeout_delay (1000 * delaySeconds argv))"
      using first_microstep_UNCENSOR[OF c, of T] sp(1) st by simp_all
    then have no: "\<forall>a. SendTo a RENDER_NORMAL \<notin> set ?e" using sp(2) by fastforce
    have hd: "held argv T T (process T UNCENSOR s)"
    proof (cases "list_ex is_SpawnChild ?e \<and> isl (runPipeline (settings ?m'))")
      case True
      then have "status (actor (process T UNCENSOR s)) = Status_error" using p by (simp add: clone_def)
      then show ?thesis by (simp add: held_def)
    next
      case False
      then have "actor (process T UNCENSOR s) = ?m'" using p by auto
      then show ?thesis using w' st' d b setTimeout_delay_ge[OF b] by (simp add: held_def)
    qed
    have "log (process T UNCENSOR s) = log s @ map (Pair T) ?e" using p by simp
    then show ?thesis unfolding step_ok_def using hd no by blast
  qed
  then have h: "held argv T T (process T UNCENSOR s)" by (simp add: step_ok_def)
  have rest: "step_ok argv T T (process T UNCENSOR s)
      (fold (process T) (case r of None \<Rightarrow> [] | Some b \<Rightarrow> [if b then START else STOP]) (process T UNCENSOR s))"
    by (rule fold_process_step_ok[OF h]) (auto split: option.splits)
  show ?thesis
    using step_ok_trans[OF first rest] by (simp add: deliver_def handlePatchState_def)
qed

lemma Normal_reentered_only_by_timer:
  assumes "well_formed m" and "censorship m = Censored c"
    and "censorship (fst (macrostep now ev m)) = Normal"
  shows "ev = AFTER_STREAM_DELAY \<and> c = Deactivating"
proof -
  have ne: "ev \<noteq> ERROR_ACTOR" using assms(2,3) by (auto simp: macrostep_error clone_def)
  from macrostep_split(1)[where now = now, OF assms(1) ne] assms(3)
  have n: "censorship (mach (first_microstep now ev m)) = Normal" by simp
  then show ?thesis
    using assms(2)
    by (cases ev; cases c; cases "stream m")
       (simp_all add: step_defs split: running_state.splits option.splits)
qed

lemma PIPELINE_ENDED_enters_Restarting:
  "stream (fst (macrostep now PIPELINE_ENDED m)) = Restarting"
proof -
  have "internalQueue (first_microstep now PIPELINE_ENDED m) = []"
    and "stream (mach (first_microstep now PIPELINE_ENDED m)) = Restarting"
    by (cases "censorship m"; cases "stream m";
        simp add: step_defs split: running_state.splits option.splits)+
  then show ?thesis by (simp add: macrostep_idle)
qed

lemma delay_bound:
  assumes "sorted (map fst (pre @ (T, Patch (Some False) r) # post))"
    and "censorship (actor (run (boot argv) pre)) = Censored c"
    and "list_all (\<lambda>x. \<not> is_CENSOR_request (snd x)) post"
    and "1000 * delaySeconds argv \<le> 2147483647"
    and "(t, SendTo a RENDER_NORMAL)
          \<in> set (emitted_since (run (boot argv) pre)
                   (run (boot argv) (pre @ (T, Patch (Some False) r) # post)))"
  shows "T + 1000 * delaySeconds argv \<le> t"
proof -
  let ?s0 = "run (boot argv) pre"
  let ?s1 = "deliver T (Patch (Some False) r) ?s0"
  have i: "sys_inv ?s0" by (simp add: run_sys_inv boot_sys_inv)
  have st: "settings (actor ?s0) = argv"
    using run_settings[OF boot_sys_inv, of argv pre] by (simp add: boot_def initial_def)
  from UNCENSOR_step_ok[OF i st assms(2,4), of T r]
  obtain effs where h1: "held argv T T ?s1"
    and l1: "log ?s1 = log ?s0 @ map (Pair T) effs"
    and e1: "\<forall>a. SendTo a RENDER_NORMAL \<in> set effs \<longrightarrow> T + 1000 * delaySeconds argv \<le> T"
    by (auto simp: step_ok_def)
  have srt: "sorted (T # map fst post)" using assms(1) by (simp add: sorted_append)
  have r: "run (boot argv) (pre @ (T, Patch (Some False) r) # post) = run ?s1 post"
    by (simp add: run_append)
  from log_run[of ?s1 post] obtain ext where l2: "log (run ?s1 post) = log ?s1 @ ext" by blast
  have "emitted_since ?s0 (run ?s1 post) = map (Pair T) effs @ emitted_since ?s1 (run ?s1 post)"
    using l1 l2 by (simp add: emitted_since_def)
  with assms(5) r consider "(t, SendTo a RENDER_NORMAL) \<in> set (map (Pair T) effs)"
    | "(t, SendTo a RENDER_NORMAL) \<in> set (emitted_since ?s1 (run ?s1 post))" by auto
  then show ?thesis
  proof cases
    case 1
    then show ?thesis using e1 by auto
  next
    case 2
    from run_emitted[OF h1 srt assms(3) 2] show ?thesis .
  qed
qed

lemma process_keeps_censored:
  assumes "sys_inv s" and "censorship (actor s) \<noteq> Normal"
    and "ev \<noteq> AFTER_STREAM_DELAY" and "ev \<noteq> ERROR_ACTOR"
  shows "censorship (actor (process now ev s)) \<noteq> Normal"
proof (cases "status (actor s) = Status_active")
  case False
  then show ?thesis using assms(2) by (simp add: process_inactive)
next
  case True
  with assms(1) have w: "well_formed (actor s)" by (simp add: sys_inv_def)
  from assms(2) obtain c where c: "censorship (actor s) = Censored c"
    by (cases "censorship (actor s)") auto
  have "censorship (fst (macrostep now ev (actor s))) \<noteq> Normal"
    using Normal_reentered_only_by_timer[OF w c, of now ev] assms(3) by blast
  then show ?thesis
    using process_active[OF w assms(4), of now] by (auto simp: clone_def)
qed

lemma fold_process_keeps_censored:
  "sys_inv s \<Longrightarrow> censorship (actor s) \<noteq> Normal \<Longrightarrow> AFTER_STREAM_DELAY \<notin> set evs \<Longrightarrow>
   ERROR_ACTOR \<notin> set evs \<Longrightarrow> censorship (actor (fold (process now) evs s)) \<noteq> Normal"
  by (induction evs arbitrary: s) (auto simp: process_keeps_censored process_sys_inv)

lemma Normal_reentered_only_when_due:
  assumes i: "sys_inv s" and c: "censorship (actor s) = Censored c"
    and n: "censorship (actor (deliver now inp s)) = Normal"
  shows "inp = TimerFired STREAM_DELAY \<and> c = Deactivating
       \<and> (\<exists>due. stream_delay_timer (actor s) = Some due \<and> due \<le> now)"
proof -
  have nn: "censorship (actor s) \<noteq> Normal" using c by simp
  show ?thesis
  proof (cases inp)
    case (Patch pc pr)
    have "AFTER_STREAM_DELAY \<notin> set (handlePatchState pc pr)" "ERROR_ACTOR \<notin> set (handlePatchState pc pr)"
      using handlePatchState_events[of pc pr] by auto
    from fold_process_keeps_censored[OF i nn this, of now] n Patch
    show ?thesis by (simp add: deliver_def)
  next
    case (SendBack_PIPELINE_ENDED x)
    then show ?thesis
      using process_keeps_censored[OF i nn, of PIPELINE_ENDED now] n nn
      by (auto simp: deliver_def sendBack_def split: if_splits)
  next
    case (SendBack_PIPELINE_STARTED x)
    then show ?thesis
      using process_keeps_censored[OF i nn, of PIPELINE_STARTED now] n nn
      by (auto simp: deliver_def sendBack_def split: if_splits)
  next
    case (TimerFired d)
    let ?s = "s\<lparr>actor := set_timer d None (actor s)\<rparr>"
    have i': "sys_inv ?s"
      using i by (cases d) (auto simp: sys_inv_def well_formed_def set_timer_def split: option.splits)
    have c': "censorship (actor ?s) = Censored c" using c by (cases d) (simp_all add: set_timer_def)
    from n TimerFired nn obtain due where due: "timer_of d (actor s) = Some due" "due \<le> now"
      and a: "status (actor s) = Status_active"
      and f: "censorship (actor (process now (after_event d) ?s)) = Normal"
      by (auto simp: deliver_def fire_def split: option.splits if_splits)
    show ?thesis
    proof (cases d)
      case RESTART_DELAY
      then show ?thesis
        using process_keeps_censored[OF i', of AFTER_RESTART_DELAY now] c' f
        by (simp add: after_event_def)
    next
      case STREAM_DELAY
      have w: "well_formed (actor ?s)" using i' a STREAM_DELAY by (simp add: sys_inv_def set_timer_def)
      have "censorship (fst (macrostep now AFTER_STREAM_DELAY (actor ?s))) = Normal"
        using f STREAM_DELAY process_active[OF w, of AFTER_STREAM_DELAY now]
        by (auto simp: after_event_def clone_def split: if_splits)
      from Normal_reentered_only_by_timer[OF w c' this]
      show ?thesis using TimerFired STREAM_DELAY due by (simp add: timer_of_def)
    qed
  qed
qed

lemma UNCENSOR_schedules_delaySeconds:
  assumes "well_formed m" and "censorship m = Censored c"
    and "1 \<le> 1000 * delaySeconds (settings m)" and "1000 * delaySeconds (settings m) \<le> 2147483647"
  shows "stream_delay_timer (fst (macrostep now UNCENSOR m))
       = Some (now + 1000 * delaySeconds (settings m))"
  using macrostep_split(1)[where now = now and ev = UNCENSOR, OF assms(1)]
    first_microstep_UNCENSOR[OF assms(2), of now] assms(3,4)
  by (simp add: setTimeout_delay_def)








section \<open>The claims\<close>

text \<open>
  C9 as stated fails in \<open>running.started\<close>: \<open>START\<close> selects \<open>START: {}\<close> of \<open>running\<close>, which
  changes nothing, but the \<open>always\<close> transition of \<open>started\<close> is then taken again and sends
  the current render command once more, so the event is not without effect.
\<close>

theorem START_while_started_resends:
  "stream (example_machine Normal (Running Started)) = Running Started
   \<and> snd (macrostep 2000 START (example_machine Normal (Running Started)))
       = [SendTo 0 RENDER_NORMAL]"
  by code_simp

text \<open>
  C9, amended. A \<open>START\<close> event received while the stream region is in \<open>running\<close> (either
  substate) leaves the machine state unchanged (snapshot object, child actor, timers and
  counters included), stops no actor and spawns none. In \<open>running.waiting\<close> it has no effect
  at all; in \<open>running.started\<close> its only effect is that the current render command,
  \<open>RENDER_NORMAL\<close> in \<open>normal\<close> and \<open>RENDER_CENSORED\<close> in \<open>censored\<close>, is sent once more to the
  running engine.
\<close>

theorem START_while_running_keeps_state:
  assumes "well_formed m" and "stream m = Running sub"
  shows "fst (macrostep now START m) = m
       \<and> (\<forall>a. SpawnChild a \<notin> set (snd (macrostep now START m)))
       \<and> (\<forall>a. StopChild a \<notin> set (snd (macrostep now START m)))
       \<and> (sub = Waiting \<longrightarrow> snd (macrostep now START m) = [])
       \<and> (\<forall>a. sub = Started \<longrightarrow> pipelineActor m = Some a
              \<longrightarrow> snd (macrostep now START m)
                  = [SendTo a (case censorship m of Normal \<Rightarrow> RENDER_NORMAL
                                                 | Censored x \<Rightarrow> RENDER_CENSORED)])"
proof -
  have f: "first_microstep now START m = \<lparr>mach = m, internalQueue = [], acts = []\<rparr>"
    using assms(2) by (cases "censorship m") (simp_all add: step_defs)
  show ?thesis
    using macrostep_closed[OF assms(1), of START now] f assms(2)
    by (auto simp: render_def isCensored_def
        split: stream_state.splits running_state.splits option.splits censorship_state.splits)
qed

theorem START_while_running_keeps_state_witness:
  "well_formed (example_machine Normal (Running Started))
   \<and> stream (example_machine Normal (Running Started)) = Running Started
   \<and> pipelineActor (example_machine Normal (Running Started)) = Some 0
   \<and> fst (macrostep 2000 START (example_machine Normal (Running Started)))
       = example_machine Normal (Running Started)
   \<and> (\<forall>a. SpawnChild a \<notin> set (snd (macrostep 2000 START (example_machine Normal (Running Started)))))
   \<and> (\<forall>a. StopChild a \<notin> set (snd (macrostep 2000 START (example_machine Normal (Running Started)))))
   \<and> snd (macrostep 2000 START (example_machine Normal (Running Started)))
       = [SendTo 0 RENDER_NORMAL]
   \<and> well_formed (example_machine (Censored Active) (Running Waiting))
   \<and> stream (example_machine (Censored Active) (Running Waiting)) = Running Waiting
   \<and> fst (macrostep 2000 START (example_machine (Censored Active) (Running Waiting)))
       = example_machine (Censored Active) (Running Waiting)
   \<and> snd (macrostep 2000 START (example_machine (Censored Active) (Running Waiting))) = []"
proof -
  let ?m = "example_machine Normal (Running Started)"
  let ?k = "example_machine (Censored Active) (Running Waiting)"
  have w: "well_formed ?m" "well_formed ?k"
    by (simp_all add: well_formed_def example_machine_def)
  have s: "stream ?m = Running Started" "stream ?k = Running Waiting"
    by (simp_all add: example_machine_def)
  have p: "pipelineActor ?m = Some 0" "censorship ?m = Normal"
    by (simp_all add: example_machine_def)
  from START_while_running_keeps_state[OF w(1) s(1), of 2000]
    START_while_running_keeps_state[OF w(2) s(2), of 2000] w s p
  show ?thesis by simp
qed

text \<open>
  C10. \<open>PIPELINE_ENDED\<close> is handled by the \<open>stream\<close> state itself: for every machine state,
  \<open>stopped\<close> and \<open>restarting\<close> included and whatever child there is, the macrostep of
  \<open>PIPELINE_ENDED\<close> ends in \<open>restarting\<close> with the restart timer scheduled, and the delayed
  event of that timer then moves the region to \<open>running.waiting\<close> and spawns a new actor.
\<close>

theorem PIPELINE_ENDED_unguarded:
  "stream (fst (macrostep now PIPELINE_ENDED m)) = Restarting
   \<and> restart_delay_timer (fst (macrostep now PIPELINE_ENDED m))
       = Some (now + setTimeout_delay (1000 * restartSeconds (settings m)))
   \<and> stream (fst (macrostep later AFTER_RESTART_DELAY (fst (macrostep now PIPELINE_ENDED m))))
       = Running Waiting
   \<and> snd (macrostep later AFTER_RESTART_DELAY (fst (macrostep now PIPELINE_ENDED m)))
       = [Cancel RESTART_DELAY, SpawnChild (next_actor m)]"
proof -
  let ?i = "first_microstep now PIPELINE_ENDED m"
  have i: "internalQueue ?i = []" "stream (mach ?i) = Restarting"
    "restart_delay_timer (mach ?i) = Some (now + setTimeout_delay (1000 * restartSeconds (settings m)))"
    "next_actor (mach ?i) = next_actor m"
    by (cases "censorship m"; cases "stream m";
        simp add: step_defs delay_of_def split: running_state.splits option.splits)+
  have m1: "macrostep now PIPELINE_ENDED m = (mach ?i, acts ?i)"
    using i(1,2) by (simp add: macrostep_idle)
  let ?j = "first_microstep later AFTER_RESTART_DELAY (mach ?i)"
  have j: "internalQueue ?j = []" "stream (mach ?j) = Running Waiting"
    "acts ?j = [Cancel RESTART_DELAY, SpawnChild (next_actor m)]"
    using i(2,4) by (cases "censorship (mach ?i)"; simp add: step_defs)+
  have m2: "macrostep later AFTER_RESTART_DELAY (mach ?i) = (mach ?j, acts ?j)"
    using j(1,2) by (simp add: macrostep_idle)
  show ?thesis using i j m1 m2 by simp
qed

text \<open>
  C7 as stated fails: with the censorship region in \<open>censored.active\<close> and the stream region
  in \<open>running.started\<close>, one more \<open>CENSOR\<close> leaves the state alone but the \<open>always\<close>
  transition of \<open>started\<close> is taken again and sends \<open>RENDER_CENSORED\<close> once more.
\<close>

theorem CENSOR_while_active_resends:
  "censorship (example_machine (Censored Active) (Running Started)) = Censored Active
   \<and> snd (macrostep 2000 CENSOR (example_machine (Censored Active) (Running Started)))
       = [SendTo 0 RENDER_CENSORED]"
  by code_simp

text \<open>
  C7, amended. In \<open>censored.active\<close> one more \<open>CENSOR\<close> leaves the whole machine state
  unchanged (same snapshot object, same timers, same child) and schedules or cancels no
  timer. It sends no command unless the stream region is in \<open>running.started\<close>, where it
  sends exactly one \<open>RENDER_CENSORED\<close> to the running engine.
\<close>

theorem CENSOR_while_active:
  assumes "well_formed m" and "censorship m = Censored Active"
  shows "fst (macrostep now CENSOR m) = m
       \<and> (stream m \<noteq> Running Started \<longrightarrow> snd (macrostep now CENSOR m) = [])
       \<and> (\<forall>a. stream m = Running Started \<longrightarrow> pipelineActor m = Some a
               \<longrightarrow> snd (macrostep now CENSOR m) = [SendTo a RENDER_CENSORED])"
proof -
  have f: "first_microstep now CENSOR m = \<lparr>mach = m, internalQueue = [], acts = []\<rparr>"
    using assms(2) by (cases "stream m") (simp_all add: step_defs)
  show ?thesis
    using macrostep_closed[OF assms(1), of CENSOR now] f assms(2)
    by (auto simp: render_def isCensored_def split: stream_state.splits running_state.splits)
qed

theorem CENSOR_while_active_witness:
  "well_formed (example_machine (Censored Active) (Running Started))
   \<and> censorship (example_machine (Censored Active) (Running Started)) = Censored Active
   \<and> stream (example_machine (Censored Active) (Running Started)) = Running Started
   \<and> pipelineActor (example_machine (Censored Active) (Running Started)) = Some 0
   \<and> fst (macrostep 2000 CENSOR (example_machine (Censored Active) (Running Started)))
       = example_machine (Censored Active) (Running Started)
   \<and> snd (macrostep 2000 CENSOR (example_machine (Censored Active) (Running Started)))
       = [SendTo 0 RENDER_CENSORED]"
proof -
  let ?m = "example_machine (Censored Active) (Running Started)"
  have w: "well_formed ?m" by (simp add: well_formed_def example_machine_def)
  have c: "censorship ?m = Censored Active" by (simp add: example_machine_def)
  have s: "stream ?m = Running Started" "pipelineActor ?m = Some 0" by (simp_all add: example_machine_def)
  from CENSOR_while_active[OF w c, of 2000] w c s show ?thesis by simp
qed

text \<open>
  C3. Whenever a macrostep enters \<open>running.started\<close> (from another state, or again by
  \<open>PIPELINE_STARTED\<close>), the commands sent to the engine in that macrostep are exactly one,
  addressed to the current child, and it is \<open>RENDER_CENSORED\<close> if the censorship region is
  in \<open>censored\<close> (either substate) and \<open>RENDER_NORMAL\<close> if it is in \<open>normal\<close>.
\<close>

theorem render_on_entering_started:
  assumes "well_formed m"
    and "stream (fst (macrostep now ev m)) = Running Started"
    and "stream m \<noteq> Running Started \<or> ev = PIPELINE_STARTED"
  shows "\<exists>a. pipelineActor (fst (macrostep now ev m)) = Some a
       \<and> filter is_SendTo (snd (macrostep now ev m))
           = [SendTo a (case censorship (fst (macrostep now ev m)) of
                          Normal \<Rightarrow> RENDER_NORMAL | Censored sub \<Rightarrow> RENDER_CENSORED)]"
proof -
  have ne: "ev \<noteq> ERROR_ACTOR"
    using assms(2,3) by (auto simp: macrostep_error clone_def)
  let ?i = "first_microstep now ev m"
  note c = macrostep_closed[OF assms(1) ne, of now]
  from c assms(2) have s: "stream (mach ?i) = Running Started" by simp
  from enters_started[OF assms(1) s assms(3)]
  have e: "internalQueue ?i = []" "filter is_SendTo (acts ?i) = []" by blast+
  from first_microstep_facts[OF assms(1), of now ev] have "well_formed (mach ?i)" by simp
  with s obtain a where a: "pipelineActor (mach ?i) = Some a"
    by (auto simp: well_formed_def split: option.splits)
  show ?thesis
    using c e s a
    by (auto simp: render_def isCensored_def is_SendTo_def split: censorship_state.splits)
qed

theorem render_on_entering_started_witness:
  "well_formed (example_machine (Censored Deactivating) (Running Waiting))
   \<and> stream (fst (macrostep 2000 PIPELINE_STARTED (example_machine (Censored Deactivating) (Running Waiting))))
       = Running Started
   \<and> stream (example_machine (Censored Deactivating) (Running Waiting)) \<noteq> Running Started
   \<and> filter is_SendTo (snd (macrostep 2000 PIPELINE_STARTED (example_machine (Censored Deactivating) (Running Waiting))))
       = [SendTo 0 RENDER_CENSORED]"
proof -
  let ?m = "example_machine (Censored Deactivating) (Running Waiting)"
  have w: "well_formed ?m" by (simp add: well_formed_def example_machine_def)
  have r: "stream (fst (macrostep 2000 PIPELINE_STARTED ?m)) = Running Started" by code_simp
  have n: "stream ?m \<noteq> Running Started \<or> PIPELINE_STARTED = PIPELINE_STARTED" by simp
  have p: "pipelineActor (fst (macrostep 2000 PIPELINE_STARTED ?m)) = Some 0" by code_simp
  have q: "censorship (fst (macrostep 2000 PIPELINE_STARTED ?m)) = Censored Deactivating" by code_simp
  have k: "stream ?m \<noteq> Running Started" by code_simp
  from render_on_entering_started[OF w r n] w r p q k show ?thesis by simp
qed

text \<open>
  C6. \<open>startTime\<close> is set exactly when the stream region is in \<open>running.started\<close>: this
  holds in the initial state and every macrostep, from any machine state and for any
  event, preserves it.
\<close>

theorem startTime_set_iff_started:
  "startTime_inv (initial argv)
   \<and> (startTime_inv m \<longrightarrow> startTime_inv (fst (macrostep now ev m)))"
  by (simp add: macrostep_startTime_inv) (simp add: startTime_inv_def initial_def)

theorem startTime_set_iff_started_witness:
  "startTime_inv (example_machine Normal (Running Waiting))
   \<and> startTime_inv (fst (macrostep 2000 PIPELINE_STARTED (example_machine Normal (Running Waiting))))
   \<and> startTime (fst (macrostep 2000 PIPELINE_STARTED (example_machine Normal (Running Waiting)))) = Some 2000
   \<and> startTime_inv (fst (macrostep 3000 STOP (fst (macrostep 2000 PIPELINE_STARTED (example_machine Normal (Running Waiting))))))
   \<and> startTime (fst (macrostep 3000 STOP (fst (macrostep 2000 PIPELINE_STARTED (example_machine Normal (Running Waiting)))))) = None"
proof -
  let ?m = "example_machine Normal (Running Waiting)"
  have a: "startTime_inv ?m" by (simp add: startTime_inv_def example_machine_def)
  have b: "startTime (fst (macrostep 2000 PIPELINE_STARTED ?m)) = Some 2000" by code_simp
  have c: "startTime (fst (macrostep 3000 STOP (fst (macrostep 2000 PIPELINE_STARTED ?m)))) = None"
    by code_simp
  from startTime_set_iff_started[of example_settings ?m 2000 PIPELINE_STARTED]
    startTime_set_iff_started[of example_settings "fst (macrostep 2000 PIPELINE_STARTED ?m)" 3000 STOP]
    a b c
  show ?thesis by simp
qed

text \<open>
  C2, at the input where the code departs from it. The state \<open>censored\<close> handles \<open>UNCENSOR\<close>
  only, so a \<open>CENSOR\<close> received in \<open>censored.deactivating\<close> enables no transition: the
  region stays in \<open>deactivating\<close>, the release timer stays pending, and when it fires the
  region goes to \<open>normal\<close> and the engine is told \<open>RENDER_NORMAL\<close>, although the last request
  was \<open>CENSOR\<close>. (Launch, engine started, \<open>CENSOR\<close> at 1000, \<open>UNCENSOR\<close> at 2000, \<open>CENSOR\<close>
  at 3000, timer at 17000; \<open>delaySeconds\<close> is 15.)
\<close>

theorem CENSOR_while_deactivating_is_dropped:
  "censorship (actor (run (boot example_settings)
      [(0, Patch None (Some True)), (100, SendBack_PIPELINE_STARTED 0),
       (1000, Patch (Some True) None), (2000, Patch (Some False) None),
       (3000, Patch (Some True) None)])) = Censored Deactivating
   \<and> stream_delay_timer (actor (run (boot example_settings)
      [(0, Patch None (Some True)), (100, SendBack_PIPELINE_STARTED 0),
       (1000, Patch (Some True) None), (2000, Patch (Some False) None),
       (3000, Patch (Some True) None)])) = Some 17000
   \<and> censorship (actor (run (boot example_settings)
      [(0, Patch None (Some True)), (100, SendBack_PIPELINE_STARTED 0),
       (1000, Patch (Some True) None), (2000, Patch (Some False) None),
       (3000, Patch (Some True) None), (17000, TimerFired STREAM_DELAY)])) = Normal
   \<and> last (log (run (boot example_settings)
      [(0, Patch None (Some True)), (100, SendBack_PIPELINE_STARTED 0),
       (1000, Patch (Some True) None), (2000, Patch (Some False) None),
       (3000, Patch (Some True) None), (17000, TimerFired STREAM_DELAY)]))
       = (17000, SendTo 0 RENDER_NORMAL)"
  by code_simp

text \<open>
  C4, at the input where the code departs from it. No transition of the configuration
  targets the state \<open>error\<close> (lemma \<open>Error_state_never_entered\<close>), and the invocation of
  \<open>runPipeline\<close> has no \<open>onError\<close>. With an output URI that \<open>runPipeline\<close> rejects, \<open>START\<close>
  leaves the stream region in \<open>running.waiting\<close> and the unhandled error event of the child
  puts the machine actor itself into the error status, after which \<open>START\<close> and \<open>STOP\<close> are
  dropped.
\<close>

theorem construction_failure_halts_machine:
  "runPipeline bad_settings = Inl (Unexpected_output_stream_protocol ''http://localhost:9999'')
   \<and> stream (actor (run (boot bad_settings) [(0, Patch None (Some True))])) = Running Waiting
   \<and> status (actor (run (boot bad_settings) [(0, Patch None (Some True))])) = Status_error
   \<and> run (boot bad_settings) [(0, Patch None (Some True)), (1000, Patch None (Some True))]
       = run (boot bad_settings) [(0, Patch None (Some True))]
   \<and> run (boot bad_settings) [(0, Patch None (Some True)), (1000, Patch None (Some False))]
       = run (boot bad_settings) [(0, Patch None (Some True))]"
  by code_simp

text \<open>
  C5. In every state that the system reaches from its start, a \<open>PIPELINE_ENDED\<close> sent back
  by an actor that has been stopped (torn down) before changes nothing at all; and while
  the stream region is in \<open>running\<close>, the \<open>PIPELINE_ENDED\<close> of an actor moves it to
  \<open>restarting\<close> if that actor is the current child and leaves it in \<open>running\<close> otherwise.
  The machine keeps no generation number: the event of a stopped actor never reaches it,
  because \<open>sendBack\<close> discards it.
\<close>

theorem stale_PIPELINE_ENDED_is_discarded:
  "((\<exists>t. (t, StopChild a) \<in> set (log (run (boot argv) tr)))
       \<longrightarrow> deliver now (SendBack_PIPELINE_ENDED a) (run (boot argv) tr) = run (boot argv) tr)
   \<and> (status (actor (run (boot argv) tr)) = Status_active
        \<longrightarrow> stream (actor (run (boot argv) tr)) = Running sub
        \<longrightarrow> stream (actor (deliver now (SendBack_PIPELINE_ENDED a) (run (boot argv) tr)))
            = (if pipelineActor (actor (run (boot argv) tr)) = Some a then Restarting
               else Running sub))"
proof -
  let ?s = "run (boot argv) tr"
  have inv: "sys_inv ?s" by (simp add: run_sys_inv boot_sys_inv)
  have stale: "deliver now (SendBack_PIPELINE_ENDED a) ?s = ?s"
    if "(t, StopChild a) \<in> set (log ?s)" for t
    using inv that by (auto simp: sys_inv_def deliver_def sendBack_def)
  have live: "stream (actor (deliver now (SendBack_PIPELINE_ENDED a) ?s)) = Restarting"
    if "status (actor ?s) = Status_active" "pipelineActor (actor ?s) = Some a"
  proof -
    from inv that(1) have w: "well_formed (actor ?s)" by (simp add: sys_inv_def)
    have "stream (fst (macrostep now PIPELINE_ENDED (actor ?s))) = Restarting"
      by (rule PIPELINE_ENDED_enters_Restarting)
    then show ?thesis
      using that(2) process_active[OF w, of PIPELINE_ENDED now]
      by (simp add: deliver_def sendBack_def clone_def)
  qed
  show ?thesis using stale live by (auto simp: deliver_def sendBack_def)
qed

theorem stale_PIPELINE_ENDED_is_discarded_witness:
  "(100, StopChild 0) \<in> set (log (run (boot example_settings)
       [(0, Patch None (Some True)), (100, SendBack_PIPELINE_ENDED 0), (3100, TimerFired RESTART_DELAY)]))
   \<and> deliver 3200 (SendBack_PIPELINE_ENDED 0) (run (boot example_settings)
       [(0, Patch None (Some True)), (100, SendBack_PIPELINE_ENDED 0), (3100, TimerFired RESTART_DELAY)])
     = run (boot example_settings)
       [(0, Patch None (Some True)), (100, SendBack_PIPELINE_ENDED 0), (3100, TimerFired RESTART_DELAY)]
   \<and> status (actor (run (boot example_settings)
       [(0, Patch None (Some True)), (100, SendBack_PIPELINE_ENDED 0), (3100, TimerFired RESTART_DELAY)]))
     = Status_active
   \<and> stream (actor (run (boot example_settings)
       [(0, Patch None (Some True)), (100, SendBack_PIPELINE_ENDED 0), (3100, TimerFired RESTART_DELAY)]))
     = Running Waiting
   \<and> pipelineActor (actor (run (boot example_settings)
       [(0, Patch None (Some True)), (100, SendBack_PIPELINE_ENDED 0), (3100, TimerFired RESTART_DELAY)]))
     = Some 1
   \<and> stream (actor (deliver 3200 (SendBack_PIPELINE_ENDED 1) (run (boot example_settings)
       [(0, Patch None (Some True)), (100, SendBack_PIPELINE_ENDED 0), (3100, TimerFired RESTART_DELAY)])))
     = Restarting"
proof -
  let ?tr = "[(0, Patch None (Some True)), (100, SendBack_PIPELINE_ENDED 0), (3100, TimerFired RESTART_DELAY)]"
  let ?s = "run (boot example_settings) ?tr"
  have l: "(100, StopChild 0) \<in> set (log ?s)" by code_simp
  have a: "status (actor ?s) = Status_active" by code_simp
  have r: "stream (actor ?s) = Running Waiting" by code_simp
  have p: "pipelineActor (actor ?s) = Some 1" by code_simp
  from stale_PIPELINE_ENDED_is_discarded[of 0 example_settings ?tr 3200 Waiting]
    stale_PIPELINE_ENDED_is_discarded[of 1 example_settings ?tr 3200 Waiting] l a r p
  show ?thesis by auto
qed




text \<open>
  C1 as stated fails in two ways. With \<open>delaySeconds = 2147484\<close> the delay in milliseconds
  is above the range of the clock, which then waits 1 ms: after \<open>CENSOR\<close> at 1000 and
  \<open>UNCENSOR\<close> at 2000, received in \<open>censored\<close> and never revoked, the timer fires at 2001,
  the region enters \<open>normal\<close> and \<open>RENDER_NORMAL\<close> is sent, long before 2000 ms plus the
  delay. And an \<open>UNCENSOR\<close> that arrives while the region is in \<open>normal\<close> enables no
  transition and starts no delay: with \<open>delaySeconds = 15\<close>, \<open>UNCENSOR\<close> at 1000 is the last
  one, no \<open>CENSOR\<close> follows, and \<open>RENDER_NORMAL\<close> is sent at 2000 when the engine starts.
\<close>

theorem RENDER_NORMAL_before_delay:
  "censorship (actor (run (boot long_delay_settings)
      [(0, Patch None (Some True)), (100, SendBack_PIPELINE_STARTED 0),
       (1000, Patch (Some True) None)])) = Censored Active
   \<and> last (log (run (boot long_delay_settings)
      [(0, Patch None (Some True)), (100, SendBack_PIPELINE_STARTED 0),
       (1000, Patch (Some True) None), (2000, Patch (Some False) None),
       (2001, TimerFired STREAM_DELAY)])) = (2001, SendTo 0 RENDER_NORMAL)
   \<and> (2001::int) < 2000 + 1000 * delaySeconds long_delay_settings
   \<and> log (run (boot example_settings)
      [(0, Patch None (Some True)), (1000, Patch (Some False) None),
       (2000, SendBack_PIPELINE_STARTED 0)])
     = [(0, SpawnChild 0), (2000, SendTo 0 RENDER_NORMAL)]
   \<and> (2000::int) < 1000 + 1000 * delaySeconds example_settings"
  by code_simp

text \<open>
  C1, amended, for a delay in the range of the clock, \<open>1000 * delaySeconds \<le> 2147483647\<close>.
  Take any run of the system from its start with times that do not decrease. If an
  \<open>UNCENSOR\<close> is received at time \<open>T\<close> while the censorship region is in \<open>censored\<close> (either
  substate) and no request that sends \<open>CENSOR\<close> follows it, then every \<open>RENDER_NORMAL\<close> sent
  from that \<open>UNCENSOR\<close> on is sent at a time \<open>t\<close> with \<open>T + 1000 * delaySeconds \<le> t\<close> (times
  are in milliseconds); this holds for the last such \<open>UNCENSOR\<close> in particular. Further: a
  macrostep sends \<open>RENDER_NORMAL\<close> only if it ends with the region in \<open>normal\<close>; in a run of
  the system the region goes from \<open>censored\<close> to \<open>normal\<close> only from \<open>deactivating\<close>, when the
  release timer is pending and due and fires; and \<open>UNCENSOR\<close> in \<open>censored\<close> starts that timer
  anew with \<open>1000 * delaySeconds\<close> ms, when that is at least 1.
\<close>

theorem delay_invariant:
  "(sorted (map fst (pre @ (T, Patch (Some False) r) # post))
      \<longrightarrow> censorship (actor (run (boot argv) pre)) = Censored c
      \<longrightarrow> list_all (\<lambda>x. \<not> is_CENSOR_request (snd x)) post
      \<longrightarrow> 1000 * delaySeconds argv \<le> 2147483647
      \<longrightarrow> (t, SendTo a RENDER_NORMAL)
            \<in> set (emitted_since (run (boot argv) pre)
                     (run (boot argv) (pre @ (T, Patch (Some False) r) # post)))
      \<longrightarrow> T + 1000 * delaySeconds argv \<le> t)
   \<and> (well_formed m
      \<longrightarrow> SendTo a' RENDER_NORMAL \<in> set (snd (macrostep now ev m))
      \<longrightarrow> censorship (fst (macrostep now ev m)) = Normal)
   \<and> (censorship (actor (run (boot argv') tr)) = Censored c'
      \<longrightarrow> censorship (actor (deliver now' inp (run (boot argv') tr))) = Normal
      \<longrightarrow> inp = TimerFired STREAM_DELAY \<and> c' = Deactivating
          \<and> (\<exists>due. stream_delay_timer (actor (run (boot argv') tr)) = Some due \<and> due \<le> now'))
   \<and> (well_formed mU
      \<longrightarrow> censorship mU = Censored cU
      \<longrightarrow> 1 \<le> 1000 * delaySeconds (settings mU)
      \<longrightarrow> 1000 * delaySeconds (settings mU) \<le> 2147483647
      \<longrightarrow> stream_delay_timer (fst (macrostep nowU UNCENSOR mU))
          = Some (nowU + 1000 * delaySeconds (settings mU)))"
proof (intro conjI impI)
  assume "sorted (map fst (pre @ (T, Patch (Some False) r) # post))"
    and "censorship (actor (run (boot argv) pre)) = Censored c"
    and "list_all (\<lambda>x. \<not> is_CENSOR_request (snd x)) post"
    and "1000 * delaySeconds argv \<le> 2147483647"
    and "(t, SendTo a RENDER_NORMAL)
          \<in> set (emitted_since (run (boot argv) pre)
                   (run (boot argv) (pre @ (T, Patch (Some False) r) # post)))"
  then show "T + 1000 * delaySeconds argv \<le> t" by (rule delay_bound)
next
  assume w: "well_formed m" and e: "SendTo a' RENDER_NORMAL \<in> set (snd (macrostep now ev m))"
  have "ev \<noteq> ERROR_ACTOR" using e by (auto simp: macrostep_error)
  from macrostep_split(2)[OF w this e] show "censorship (fst (macrostep now ev m)) = Normal" .
next
  assume c: "censorship (actor (run (boot argv') tr)) = Censored c'"
    and n: "censorship (actor (deliver now' inp (run (boot argv') tr))) = Normal"
  have i: "sys_inv (run (boot argv') tr)" by (simp add: run_sys_inv boot_sys_inv)
  from Normal_reentered_only_when_due[OF i c n]
  show "inp = TimerFired STREAM_DELAY" and "c' = Deactivating"
    and "\<exists>due. stream_delay_timer (actor (run (boot argv') tr)) = Some due \<and> due \<le> now'"
    by simp_all
next
  assume "well_formed mU" and "censorship mU = Censored cU"
    and "1 \<le> 1000 * delaySeconds (settings mU)" and "1000 * delaySeconds (settings mU) \<le> 2147483647"
  then show "stream_delay_timer (fst (macrostep nowU UNCENSOR mU))
      = Some (nowU + 1000 * delaySeconds (settings mU))"
    by (rule UNCENSOR_schedules_delaySeconds)
qed

theorem delay_invariant_witness:
  "sorted (map fst ([(0::int, Patch None (Some True)), (100, SendBack_PIPELINE_STARTED 0),
                     (1000, Patch (Some True) None)]
                    @ (2000, Patch (Some False) None) # [(17000::int, TimerFired STREAM_DELAY)]))
   \<and> censorship (actor (run (boot example_settings)
        [(0, Patch None (Some True)), (100, SendBack_PIPELINE_STARTED 0),
         (1000, Patch (Some True) None)])) = Censored Active
   \<and> list_all (\<lambda>x. \<not> is_CENSOR_request (snd x)) [(17000::int, TimerFired STREAM_DELAY)]
   \<and> 1000 * delaySeconds example_settings \<le> 2147483647
   \<and> (17000, SendTo 0 RENDER_NORMAL)
        \<in> set (emitted_since
             (run (boot example_settings)
                [(0, Patch None (Some True)), (100, SendBack_PIPELINE_STARTED 0),
                 (1000, Patch (Some True) None)])
             (run (boot example_settings)
                ([(0, Patch None (Some True)), (100, SendBack_PIPELINE_STARTED 0),
                  (1000, Patch (Some True) None)]
                 @ (2000, Patch (Some False) None) # [(17000::int, TimerFired STREAM_DELAY)])))
   \<and> 2000 + 1000 * delaySeconds example_settings \<le> 17000
   \<and> well_formed (example_machine Normal (Running Started))
   \<and> SendTo 0 RENDER_NORMAL
        \<in> set (snd (macrostep 2000 START (example_machine Normal (Running Started))))
   \<and> censorship (fst (macrostep 2000 START (example_machine Normal (Running Started)))) = Normal
   \<and> censorship (actor (run (boot example_settings)
        [(0, Patch None (Some True)), (100, SendBack_PIPELINE_STARTED 0),
         (1000, Patch (Some True) None), (2000, Patch (Some False) None)])) = Censored Deactivating
   \<and> censorship (actor (deliver 17000 (TimerFired STREAM_DELAY) (run (boot example_settings)
        [(0, Patch None (Some True)), (100, SendBack_PIPELINE_STARTED 0),
         (1000, Patch (Some True) None), (2000, Patch (Some False) None)]))) = Normal
   \<and> (\<exists>due. stream_delay_timer (actor (run (boot example_settings)
        [(0, Patch None (Some True)), (100, SendBack_PIPELINE_STARTED 0),
         (1000, Patch (Some True) None), (2000, Patch (Some False) None)])) = Some due
        \<and> due \<le> 17000)
   \<and> well_formed (example_machine (Censored Active) (Running Started))
   \<and> stream_delay_timer (fst (macrostep 2000 UNCENSOR
          (example_machine (Censored Active) (Running Started)))) = Some 17000"
proof -
  let ?pre = "[(0::int, Patch None (Some True)), (100, SendBack_PIPELINE_STARTED 0),
               (1000, Patch (Some True) None)]"
  let ?post = "[(17000::int, TimerFired STREAM_DELAY)]"
  let ?tr = "[(0::int, Patch None (Some True)), (100, SendBack_PIPELINE_STARTED 0),
              (1000, Patch (Some True) None), (2000, Patch (Some False) None)]"
  let ?m = "example_machine Normal (Running Started)"
  let ?m2 = "example_machine (Censored Active) (Running Started)"
  note inst = delay_invariant[where pre = ?pre and T = 2000 and r = None and post = ?post
      and argv = example_settings and c = Active and t = 17000 and a = 0
      and m = ?m and a' = 0 and now = 2000 and ev = START
      and argv' = example_settings and tr = ?tr and c' = Deactivating and now' = 17000
      and inp = "TimerFired STREAM_DELAY"
      and mU = ?m2 and cU = Active and nowU = 2000]
  have h1: "sorted (map fst (?pre @ (2000, Patch (Some False) None) # ?post))" by simp
  have h2: "censorship (actor (run (boot example_settings) ?pre)) = Censored Active" by code_simp
  have h3: "list_all (\<lambda>x. \<not> is_CENSOR_request (snd x)) ?post" by (simp add: is_CENSOR_request_def)
  have h4: "1000 * delaySeconds example_settings \<le> 2147483647" by (simp add: example_settings_def)
  have h5: "(17000, SendTo 0 RENDER_NORMAL)
        \<in> set (emitted_since (run (boot example_settings) ?pre)
             (run (boot example_settings) (?pre @ (2000, Patch (Some False) None) # ?post)))"
    by code_simp
  have h6: "well_formed ?m" by (simp add: well_formed_def example_machine_def)
  have h7: "SendTo 0 RENDER_NORMAL \<in> set (snd (macrostep 2000 START ?m))" by code_simp
  have h8: "censorship (actor (run (boot example_settings) ?tr)) = Censored Deactivating" by code_simp
  have h9: "censorship (actor (deliver 17000 (TimerFired STREAM_DELAY)
               (run (boot example_settings) ?tr))) = Normal" by code_simp
  have h10: "well_formed ?m2" by (simp add: well_formed_def example_machine_def)
  have h11: "censorship ?m2 = Censored Active" "settings ?m2 = example_settings"
    by (simp_all add: example_machine_def)
  have h12: "1 \<le> 1000 * delaySeconds example_settings" by (simp add: example_settings_def)
  have d: "delaySeconds example_settings = 15" by (simp add: example_settings_def)
  from inst h1 h2 h3 h4 h5 have c1: "2000 + 1000 * delaySeconds example_settings \<le> 17000" by blast
  from inst h6 h7 have cU: "censorship (fst (macrostep 2000 START ?m)) = Normal" by blast
  from inst h8 h9 have c3: "\<exists>due. stream_delay_timer (actor (run (boot example_settings) ?tr)) = Some due
      \<and> due \<le> 17000" by blast
  from inst h10 h11 h12 h4 have c4: "stream_delay_timer (fst (macrostep 2000 UNCENSOR ?m2)) = Some 17000"
    by (simp add: d)
  from h1 h2 h3 h4 h5 h6 h7 h8 h9 h10 c1 cU c3 c4 show ?thesis by blast
qed

end
